theory Spec2Isabelle
  imports Complex_Main "HOL-Library.AList"
begin

section \<open>The scan orchestrator of cfscanner.py\<close>

text \<open>
  The script \<^verbatim>\<open>src/python/cfscanner.py\<close> writes a title row to the results file, builds
  the progress display and then runs one \<^verbatim>\<open>while True\<close> loop around
  \<^verbatim>\<open>next(iterator)\<close>, with four \<^verbatim>\<open>except\<close> clauses. The embedding below follows the
  script statement by statement. What \<^verbatim>\<open>next(iterator)\<close> does on each call is the input of
  the model: a list of outcomes, one per submitted candidate. Measurements are Python
  numbers; they are kept as rationals, and the rounding of floating point arithmetic is
  not part of the model. A line of the results file is kept as the list of its fields,
  before \<^verbatim>\<open>",".join(map(str, res_parts))\<close>.
\<close>

subsection \<open>Python values, dictionaries and exceptions\<close>

type_synonym cidr = string

text \<open>
  The exception classes that the loop body or a worker can raise and that the clause
  \<^verbatim>\<open>except Exception\<close> or \<^verbatim>\<open>except StartProxyServiceError\<close> receives.
  \<^verbatim>\<open>StopIteration\<close> and \<^verbatim>\<open>KeyboardInterrupt\<close> are outcomes of \<^verbatim>\<open>next\<close> of their own, see
  \<open>outcome\<close> below.
\<close>

datatype exn = StartProxyServiceError | KeyError | StatisticsError | OtherException string

text \<open>A Python dict keeps one entry per key, in insertion order; \<^verbatim>\<open>d[k]\<close> raises KeyError
  on a missing key and \<^verbatim>\<open>d[k] = v\<close> replaces in place or appends.\<close>

definition getitem :: "('k \<times> 'v) list \<Rightarrow> 'k \<Rightarrow> exn + 'v" where
  "getitem d k = (case map_of d k of None \<Rightarrow> Inl KeyError | Some v \<Rightarrow> Inr v)"

definition setitem :: "('k \<times> 'v) list \<Rightarrow> 'k \<Rightarrow> 'v \<Rightarrow> ('k \<times> 'v) list" where
  "setitem d k v = AList.update k v d"

definition try_bind :: "exn + 'a \<Rightarrow> ('a \<Rightarrow> exn + 'b) \<Rightarrow> exn + 'b" where
  "try_bind r f = (case r of Inl e \<Rightarrow> Inl e | Inr v \<Rightarrow> f v)"

text \<open>\<^verbatim>\<open>str(n)\<close> for a natural number, used by the f-strings of the title row.\<close>

function str_nat :: "nat \<Rightarrow> string" where
  "str_nat n = (if n < 10 then [''0123456789'' ! n]
                else str_nat (n div 10) @ [''0123456789'' ! (n mod 10)])"
  by pat_completeness auto
termination
  by (relation "measure id") auto

declare str_nat.simps [simp del]

subsection \<open>The title row (lines 80 to 95)\<close>

datatype field = Str string | Num rat

type_synonym row = "field list"

definition titles :: "nat \<Rightarrow> string list" where
  "titles n_tries =
     [''ip'', ''avg_download_speed'', ''avg_upload_speed'',
      ''avg_download_latency'', ''avg_upload_latency'',
      ''avg_download_jitter'', ''avg_upload_jitter'']
     @ map (\<lambda>i. ''download_speed_'' @ str_nat (i + 1)) [0..<n_tries]
     @ map (\<lambda>i. ''upload_speed_'' @ str_nat (i + 1)) [0..<n_tries]
     @ map (\<lambda>i. ''download_latency_'' @ str_nat (i + 1)) [0..<n_tries]
     @ map (\<lambda>i. ''upload_latency_'' @ str_nat (i + 1)) [0..<n_tries]"

subsection \<open>Probe results and configuration\<close>

text \<open>
  \<open>result\<close> is the nested dict read as \<^verbatim>\<open>res.result["download"]["speed"]\<close>. The
  collaborators \<^verbatim>\<open>get_num_ips_in_cidr\<close> (module subnets, called with the sample size of
  the run) and \<^verbatim>\<open>mean_jitter\<close> (module speedtest.tools) are not part of this file of the
  repository; they are parameters of the model.
\<close>

record probe_result =
  ip :: string
  cidr :: cidr
  is_ok :: bool
  message :: string
  result :: "(string \<times> (string \<times> rat list) list) list"

record collab =
  get_num_ips_in_cidr :: "cidr \<Rightarrow> nat"
  mean_jitter :: "rat list \<Rightarrow> rat"

record test_config =
  do_upload_test :: bool
  n_tries :: nat

text \<open>\<^verbatim>\<open>statistics.mean\<close> raises StatisticsError on empty data.\<close>

definition mean :: "rat list \<Rightarrow> exn + rat" where
  "mean xs = (if xs = [] then Inl StatisticsError
              else Inr (sum_list xs / of_nat (length xs)))"

subsection \<open>The progress display (rich.progress.Progress)\<close>

text \<open>
  Tasks live in a dict from task id to task; \<^verbatim>\<open>add_task\<close> hands out the ids
  0, 1, 2, ... and never reuses one; \<^verbatim>\<open>update\<close>, \<^verbatim>\<open>stop_task\<close> and \<^verbatim>\<open>remove_task\<close>
  index the dict and raise KeyError for an id that is not there.
\<close>

record task =
  description :: string
  task_total :: nat
  task_completed :: nat
  stopped :: bool

record progress =
  tasks :: "(nat \<times> task) list"
  task_index :: nat
  live :: bool

definition Progress :: progress where
  "Progress = \<lparr>tasks = [], task_index = 0, live = True\<rparr>"

definition add_task :: "progress \<Rightarrow> string \<Rightarrow> nat \<Rightarrow> nat \<times> progress" where
  "add_task p descr tot =
     (task_index p,
      p\<lparr>tasks := setitem (tasks p) (task_index p)
                    \<lparr>description = descr, task_total = tot, task_completed = 0, stopped = False\<rparr>,
        task_index := task_index p + 1\<rparr>)"

definition update :: "progress \<Rightarrow> nat \<Rightarrow> nat \<Rightarrow> exn + progress" where
  "update p tid advance =
     (case getitem (tasks p) tid of
        Inl e \<Rightarrow> Inl e
      | Inr t \<Rightarrow> Inr (p\<lparr>tasks := setitem (tasks p) tid
                                   (t\<lparr>task_completed := task_completed t + advance\<rparr>)\<rparr>))"

definition stop_task :: "progress \<Rightarrow> nat \<Rightarrow> exn + progress" where
  "stop_task p tid =
     (case getitem (tasks p) tid of
        Inl e \<Rightarrow> Inl e
      | Inr t \<Rightarrow> Inr (p\<lparr>tasks := setitem (tasks p) tid (t\<lparr>stopped := True\<rparr>)\<rparr>))"

definition remove_task :: "progress \<Rightarrow> nat \<Rightarrow> exn + progress" where
  "remove_task p tid =
     (case getitem (tasks p) tid of
        Inl e \<Rightarrow> Inl e
      | Inr t \<Rightarrow> Inr (p\<lparr>tasks := AList.delete tid (tasks p)\<rparr>))"

definition stop :: "progress \<Rightarrow> progress" where
  "stop p = p\<lparr>live := False\<rparr>"

definition task_ids :: "progress \<Rightarrow> nat list" where
  "task_ids p = map fst (tasks p)"

subsection \<open>The state of the scan\<close>

datatype console_output =
    Rprint string
  | ProgressLog string
  | ConsoleLogError exn
  | PrintException exn

record scan_state =
  progress :: progress
  all_ips_task :: nat
  cidr_scanned_ips :: "(cidr \<times> nat) list"
  cidr_prog_tasks :: "(cidr \<times> nat) list"
  outfile :: "row list"
  console :: "console_output list"
  log_file :: "exn list"
  pool_terminated :: bool

text \<open>Lines 151 to 172: the state in which the loop starts. The results file holds the
  title row; \<^verbatim>\<open>cidr_scanned_ips\<close> is \<^verbatim>\<open>{cidr: 0 for cidr in cidr_list}\<close>.\<close>

definition initial_state :: "collab \<Rightarrow> test_config \<Rightarrow> cidr list \<Rightarrow> scan_state" where
  "initial_state co cfg cidr_list =
     (let n_total_ips = sum_list (map (get_num_ips_in_cidr co) cidr_list);
          (tid, p) = add_task Progress
                       (''all subnets - '' @ str_nat n_total_ips @ '' ips'') n_total_ips
      in \<lparr>progress = p,
          all_ips_task = tid,
          cidr_scanned_ips = foldl (\<lambda>d c. setitem d c 0) [] cidr_list,
          cidr_prog_tasks = [],
          outfile = [map Str (titles (n_tries cfg))],
          console = [],
          log_file = [],
          pool_terminated = False\<rparr>)"

subsection \<open>The body of the try block (lines 180 to 221)\<close>

text \<open>
  A stage returns the new state, or the exception it raises together with the state
  reached when it was raised: the effects made before the \<^verbatim>\<open>raise\<close> stay.
\<close>

definition then_do ::
  "(exn \<times> scan_state) + scan_state \<Rightarrow> (scan_state \<Rightarrow> (exn \<times> scan_state) + scan_state)
     \<Rightarrow> (exn \<times> scan_state) + scan_state" where
  "then_do r f = (case r of Inl x \<Rightarrow> Inl x | Inr s \<Rightarrow> f s)"

text \<open>Lines 180 to 186.\<close>

definition update_progress ::
  "collab \<Rightarrow> probe_result \<Rightarrow> scan_state \<Rightarrow> (exn \<times> scan_state) + scan_state" where
  "update_progress co res s =
     (case update (progress s) (all_ips_task s) 1 of
        Inl e \<Rightarrow> Inl (e, s)
      | Inr p1 \<Rightarrow>
          (let s1 = s\<lparr>progress := p1\<rparr> in
           case getitem (cidr_scanned_ips s1) (cidr res) of
             Inl e \<Rightarrow> Inl (e, s1)
           | Inr n \<Rightarrow>
               (let s2 =
                  (if n = 0 then
                     (let n_ips_cidr = get_num_ips_in_cidr co (cidr res);
                          (tid, p2) = add_task (progress s1)
                             (cidr res @ '' - '' @ str_nat n_ips_cidr @ '' ips'') n_ips_cidr
                      in s1\<lparr>progress := p2,
                            cidr_prog_tasks := setitem (cidr_prog_tasks s1) (cidr res) tid\<rparr>)
                   else s1)
                in case getitem (cidr_prog_tasks s2) (cidr res) of
                     Inl e \<Rightarrow> Inl (e, s2)
                   | Inr tid \<Rightarrow>
                       (case update (progress s2) tid 1 of
                          Inl e \<Rightarrow> Inl (e, s2)
                        | Inr p3 \<Rightarrow> Inr (s2\<lparr>progress := p3\<rparr>)))))"

text \<open>Lines 189 to 200: the six summary figures.\<close>

record summary =
  down_mean_jitter :: rat
  up_mean_jitter :: rat
  mean_down_speed :: rat
  mean_up_speed :: rat
  mean_down_latency :: rat
  mean_up_latency :: rat

definition samples :: "probe_result \<Rightarrow> string \<Rightarrow> string \<Rightarrow> exn + rat list" where
  "samples res direction kind = try_bind (getitem (result res) direction) (\<lambda>d. getitem d kind)"

definition summarise :: "collab \<Rightarrow> test_config \<Rightarrow> probe_result \<Rightarrow> exn + summary" where
  "summarise co cfg res =
     try_bind (samples res ''download'' ''latency'') (\<lambda>dl.
     try_bind (if do_upload_test cfg
               then try_bind (samples res ''upload'' ''latency'') (\<lambda>ul. Inr (mean_jitter co ul))
               else Inr (- 1)) (\<lambda>uj.
     try_bind (try_bind (samples res ''download'' ''speed'') mean) (\<lambda>mds.
     try_bind (if do_upload_test cfg
               then try_bind (samples res ''upload'' ''speed'') mean
               else Inr (- 1)) (\<lambda>mus.
     try_bind (try_bind (samples res ''download'' ''latency'') mean) (\<lambda>mdl.
     try_bind (if do_upload_test cfg
               then try_bind (samples res ''upload'' ''latency'') mean
               else Inr (- 1)) (\<lambda>mul.
     Inr \<lparr>down_mean_jitter = mean_jitter co dl, up_mean_jitter = uj,
          mean_down_speed = mds, mean_up_speed = mus,
          mean_down_latency = mdl, mean_up_latency = mul\<rparr>))))))"

text \<open>Lines 205 to 213: the fields of the line.\<close>

definition res_parts :: "probe_result \<Rightarrow> summary \<Rightarrow> exn + row" where
  "res_parts res sm =
     try_bind (samples res ''download'' ''speed'') (\<lambda>ds.
     try_bind (samples res ''upload'' ''speed'') (\<lambda>us.
     try_bind (samples res ''download'' ''latency'') (\<lambda>dl.
     try_bind (samples res ''upload'' ''latency'') (\<lambda>ul.
     Inr ([Str (ip res), Num (mean_down_speed sm), Num (mean_up_speed sm),
           Num (mean_down_latency sm), Num (mean_up_latency sm),
           Num (down_mean_jitter sm), Num (up_mean_jitter sm)]
          @ map Num ds @ map Num us @ map Num dl @ map Num ul)))))"

text \<open>Lines 188 to 217. The file is opened for appending; a lookup that raises inside
  the \<^verbatim>\<open>with\<close> block leaves it as it was.\<close>

definition record_result ::
  "collab \<Rightarrow> test_config \<Rightarrow> probe_result \<Rightarrow> scan_state \<Rightarrow> (exn \<times> scan_state) + scan_state" where
  "record_result co cfg res s =
     (if is_ok res then
        (case summarise co cfg res of
           Inl e \<Rightarrow> Inl (e, s)
         | Inr sm \<Rightarrow>
             (let s1 = s\<lparr>console := console s @ [Rprint (message res)]\<rparr> in
              case res_parts res sm of
                Inl e \<Rightarrow> Inl (e, s1)
              | Inr parts \<Rightarrow> Inr (s1\<lparr>outfile := outfile s1 @ [parts]\<rparr>)))
      else Inr (s\<lparr>console := console s @ [Rprint (message res)]\<rparr>))"

text \<open>Lines 219 to 221.\<close>

definition count_scanned ::
  "collab \<Rightarrow> probe_result \<Rightarrow> scan_state \<Rightarrow> (exn \<times> scan_state) + scan_state" where
  "count_scanned co res s =
     (case getitem (cidr_scanned_ips s) (cidr res) of
        Inl e \<Rightarrow> Inl (e, s)
      | Inr n \<Rightarrow>
          (let s1 = s\<lparr>cidr_scanned_ips := setitem (cidr_scanned_ips s) (cidr res) (n + 1)\<rparr> in
           if n + 1 = get_num_ips_in_cidr co (cidr res) then
             (case getitem (cidr_prog_tasks s1) (cidr res) of
                Inl e \<Rightarrow> Inl (e, s1)
              | Inr tid \<Rightarrow>
                  (case remove_task (progress s1) tid of
                     Inl e \<Rightarrow> Inl (e, s1)
                   | Inr p \<Rightarrow> Inr (s1\<lparr>progress := p\<rparr>)))
           else Inr s1))"

definition process_result ::
  "collab \<Rightarrow> test_config \<Rightarrow> probe_result \<Rightarrow> scan_state \<Rightarrow> (exn \<times> scan_state) + scan_state" where
  "process_result co cfg res s =
     then_do (then_do (update_progress co res s) (record_result co cfg res))
             (count_scanned co res)"

subsection \<open>The except clauses (lines 222 to 247) and the loop\<close>

text \<open>
  What \<^verbatim>\<open>next(iterator)\<close> of line 179 does in one pass: it returns the next result, it
  re-raises the exception a worker raised for the next candidate, KeyboardInterrupt is
  raised in the main thread while it waits, or it raises StopIteration. The iterator
  raises StopIteration when the results are used up, and it re-raises in the same way a
  StopIteration that a worker raised for a candidate; the clause of line 228 cannot tell
  the two apart, so the one outcome \<^verbatim>\<open>StopIteration\<close> stands for both, and in a list of
  outcomes it may be followed by candidates that were not consumed.
\<close>

datatype outcome =
    Yield probe_result
  | Raise exn
  | KeyboardInterrupt
  | StopIteration

datatype flow = Continue scan_state | Break scan_state | Uncaught exn scan_state

fun flow_state :: "flow \<Rightarrow> scan_state" where
  "flow_state (Continue s) = s"
| "flow_state (Break s) = s"
| "flow_state (Uncaught e s) = s"

text \<open>The loops of lines 229 to 231 and 236 to 238 over the ids of the tasks.\<close>

fun stop_and_remove :: "nat list \<Rightarrow> progress \<Rightarrow> (exn \<times> progress) + progress" where
  "stop_and_remove [] p = Inr p"
| "stop_and_remove (tid # tids) p =
     (case stop_task p tid of
        Inl e \<Rightarrow> Inl (e, p)
      | Inr p1 \<Rightarrow>
          (case remove_task p1 tid of
             Inl e \<Rightarrow> Inl (e, p1)
           | Inr p2 \<Rightarrow> stop_and_remove tids p2))"

definition on_start_proxy_service_error :: "exn \<Rightarrow> scan_state \<Rightarrow> flow" where
  "on_start_proxy_service_error e s =
     Break (s\<lparr>progress := stop (progress s),
              console := console s @ [ConsoleLogError e],
              pool_terminated := True,
              log_file := log_file s @ [e]\<rparr>)"

definition on_stop_iteration :: "scan_state \<Rightarrow> flow" where
  "on_stop_iteration s =
     (case stop_and_remove (task_ids (progress s)) (progress s) of
        Inl (e, p) \<Rightarrow> Uncaught e (s\<lparr>progress := p\<rparr>)
      | Inr p \<Rightarrow>
          Break (s\<lparr>progress := stop p,
                   console := console s @ [ProgressLog ''Finished scanning ips.'']\<rparr>))"

definition on_keyboard_interrupt :: "scan_state \<Rightarrow> flow" where
  "on_keyboard_interrupt s =
     (case stop_and_remove (task_ids (progress s)) (progress s) of
        Inl (e, p) \<Rightarrow> Uncaught e (s\<lparr>progress := p\<rparr>)
      | Inr p \<Rightarrow>
          Break (s\<lparr>progress := stop p,
                   console := console s
                      @ [ProgressLog ''[yellow]KeyboardInterrupt detected (scan phase)[/yellow]''],
                   pool_terminated := True\<rparr>))"

definition on_exception :: "exn \<Rightarrow> scan_state \<Rightarrow> flow" where
  "on_exception e s =
     Continue (s\<lparr>console := console s
                    @ [ProgressLog ''[red]Unknown error![/red]'', PrintException e],
                 log_file := log_file s @ [e]\<rparr>)"

text \<open>The except clauses in the order of the source.\<close>

definition handle :: "exn \<Rightarrow> scan_state \<Rightarrow> flow" where
  "handle e s =
     (if e = StartProxyServiceError then on_start_proxy_service_error e s
      else on_exception e s)"

text \<open>One pass through the body of \<^verbatim>\<open>while True\<close>, for the given outcome of
  \<^verbatim>\<open>next(iterator)\<close>.\<close>

definition iteration :: "collab \<Rightarrow> test_config \<Rightarrow> outcome \<Rightarrow> scan_state \<Rightarrow> flow" where
  "iteration co cfg out s =
     (case out of
        Yield res \<Rightarrow>
          (case process_result co cfg res s of
             Inl (e, s1) \<Rightarrow> handle e s1
           | Inr s1 \<Rightarrow> Continue s1)
      | Raise e \<Rightarrow> handle e s
      | StopIteration \<Rightarrow> on_stop_iteration s
      | KeyboardInterrupt \<Rightarrow> on_keyboard_interrupt s)"

text \<open>The loop: the iterator yields the outcomes in turn and raises StopIteration when
  they are used up.\<close>

fun scan_loop :: "collab \<Rightarrow> test_config \<Rightarrow> outcome list \<Rightarrow> scan_state \<Rightarrow> flow" where
  "scan_loop co cfg [] s = iteration co cfg StopIteration s"
| "scan_loop co cfg (out # outs) s =
     (case iteration co cfg out s of
        Continue s1 \<Rightarrow> scan_loop co cfg outs s1
      | Break s1 \<Rightarrow> Break s1
      | Uncaught e s1 \<Rightarrow> Uncaught e s1)"

text \<open>The state after the first outcomes, for statements about every point of the scan.\<close>

fun scan_prefix :: "collab \<Rightarrow> test_config \<Rightarrow> outcome list \<Rightarrow> scan_state \<Rightarrow> flow" where
  "scan_prefix co cfg [] s = Continue s"
| "scan_prefix co cfg (out # outs) s =
     (case iteration co cfg out s of
        Continue s1 \<Rightarrow> scan_prefix co cfg outs s1
      | Break s1 \<Rightarrow> Break s1
      | Uncaught e s1 \<Rightarrow> Uncaught e s1)"






text \<open>
  Leaving the two \<^verbatim>\<open>with\<close> blocks terminates the pool and stops the display. Nothing
  follows the loop, so a scan that leaves it by \<^verbatim>\<open>break\<close> ends the script with exit
  status 0; an exception that no clause catches ends it with status 1.
\<close>

definition leave_with_blocks :: "scan_state \<Rightarrow> scan_state" where
  "leave_with_blocks s = s\<lparr>progress := stop (progress s), pool_terminated := True\<rparr>"

definition run_scan ::
  "collab \<Rightarrow> test_config \<Rightarrow> cidr list \<Rightarrow> outcome list \<Rightarrow> scan_state \<times> nat" where
  "run_scan co cfg cidr_list outs =
     (case scan_loop co cfg outs (initial_state co cfg cidr_list) of
        Continue s \<Rightarrow> (leave_with_blocks s, 0)
      | Break s \<Rightarrow> (leave_with_blocks s, 0)
      | Uncaught e s \<Rightarrow> (leave_with_blocks s, 1))"

subsection \<open>Observations on a state\<close>

definition overall :: "scan_state \<Rightarrow> nat option" where
  "overall s = map_option task_completed (map_of (tasks (progress s)) (all_ips_task s))"

definition scanned :: "scan_state \<Rightarrow> cidr \<Rightarrow> nat option" where
  "scanned s c = map_of (cidr_scanned_ips s) c"

definition scanned_sum :: "scan_state \<Rightarrow> nat" where
  "scanned_sum s = sum_list (map snd (cidr_scanned_ips s))"

text \<open>
  Whether the task id that \<^verbatim>\<open>cidr_prog_tasks\<close> holds for the block at this moment is
  registered in the display. The dict holds one id per block: an entry of the block
  whose id line 184 has overwritten is not looked at.
\<close>

definition tracked :: "scan_state \<Rightarrow> cidr \<Rightarrow> bool" where
  "tracked s c \<longleftrightarrow> map_of (cidr_prog_tasks s) c \<in> Some ` set (task_ids (progress s))"

text \<open>
  The entries of a block in the display: the ids of the registered tasks whose description
  is the one line 184 gives to a task of the block, \<^verbatim>\<open>f"{res.cidr} - {n_ips_cidr} ips"\<close>,
  whether or not \<^verbatim>\<open>cidr_prog_tasks\<close> still points at them.
\<close>

definition block_entries :: "collab \<Rightarrow> scan_state \<Rightarrow> cidr \<Rightarrow> nat list" where
  "block_entries co s c =
     map fst (filter (\<lambda>(tid, t). description t =
                         c @ '' - '' @ str_nat (get_num_ips_in_cidr co c) @ '' ips'')
                (tasks (progress s)))"

subsection \<open>Invariants of the loop\<close>

text \<open>The state a stage leaves behind, whether it returned or raised.\<close>

fun state_of :: "(exn \<times> scan_state) + scan_state \<Rightarrow> scan_state" where
  "state_of (Inl (e, s)) = s"
| "state_of (Inr s) = s"

text \<open>The \<^verbatim>\<open>completed\<close> counter of a task, if the task is there.\<close>

definition completed_of :: "progress \<Rightarrow> nat \<Rightarrow> nat option" where
  "completed_of p tid = map_option task_completed (map_of (tasks p) tid)"

text \<open>Task ids are distinct and below the next id to hand out, the overall task is
  there, and no block points at the overall task.\<close>

definition wf_state :: "scan_state \<Rightarrow> bool" where
  "wf_state s \<longleftrightarrow>
     distinct (task_ids (progress s)) \<and>
     (\<forall>tid \<in> set (task_ids (progress s)). tid < task_index (progress s)) \<and>
     all_ips_task s \<in> set (task_ids (progress s)) \<and>
     (\<forall>c tid. map_of (cidr_prog_tasks s) c = Some tid \<longrightarrow>
        tid < task_index (progress s) \<and> tid \<noteq> all_ips_task s) \<and>
     distinct (map fst (cidr_scanned_ips s))"

text \<open>The number of outcomes that are results.\<close>

fun is_yield :: "outcome \<Rightarrow> bool" where
  "is_yield (Yield res) = True"
| "is_yield out = False"

definition yields :: "outcome list \<Rightarrow> nat" where
  "yields outs = length (filter is_yield outs)"

subsection \<open>Inputs on which the model is run\<close>

text \<open>
  A collaborator instance: every block samples two addresses, and the jitter follows the
  description of the statistics helper (module speedtest.tools is not among the sources
  at hand): the mean of the absolute differences of consecutive latencies, and \<open>- 1\<close>
  below two samples. A configuration without upload test and with two trials. Three
  successful probe results of the block \<^verbatim>\<open>1.1.1.0/31\<close>: one with upload sequences
  filled with \<open>- 1\<close>, one without the upload entry, one with empty upload sequences.
\<close>

definition jitter :: "rat list \<Rightarrow> rat" where
  "jitter xs = (if length xs < 2 then - 1
                else sum_list (map2 (\<lambda>a b. abs (b - a)) xs (tl xs)) / of_nat (length xs - 1))"

definition two_ips :: collab where
  "two_ips = \<lparr>get_num_ips_in_cidr = (\<lambda>c. 2), mean_jitter = jitter\<rparr>"

definition no_upload :: test_config where
  "no_upload = \<lparr>do_upload_test = False, n_tries = 2\<rparr>"

definition probe_ok :: probe_result where
  "probe_ok = \<lparr>ip = ''1.1.1.0'', cidr = ''1.1.1.0/31'', is_ok = True, message = ''ok'',
     result = [(''download'', [(''speed'', [4, 6]), (''latency'', [30, 50])]),
               (''upload'', [(''speed'', [- 1, - 1]), (''latency'', [- 1, - 1])])]\<rparr>"

definition probe_without_upload :: probe_result where
  "probe_without_upload = \<lparr>ip = ''1.1.1.1'', cidr = ''1.1.1.0/31'', is_ok = True, message = ''ok'',
     result = [(''download'', [(''speed'', [4, 6]), (''latency'', [30, 50])])]\<rparr>"

definition probe_empty_upload :: probe_result where
  "probe_empty_upload = \<lparr>ip = ''1.1.1.1'', cidr = ''1.1.1.0/31'', is_ok = True, message = ''ok'',
     result = [(''download'', [(''speed'', [4, 6]), (''latency'', [30, 50])]),
               (''upload'', [(''speed'', []), (''latency'', [])])]\<rparr>"

definition one_block :: "cidr list" where
  "one_block = [''1.1.1.0/31'']"

section \<open>Properties of the dictionaries and of the progress display\<close>

lemma getitem_Inr [simp]: "getitem d k = Inr v \<longleftrightarrow> map_of d k = Some v"
  by (simp add: getitem_def split: option.splits)

lemma getitem_Inl [simp]: "getitem d k = Inl e \<longleftrightarrow> map_of d k = None \<and> e = KeyError"
  by (auto simp: getitem_def split: option.splits)

lemma getitem_None [simp]: "map_of d k = None \<Longrightarrow> getitem d k = Inl KeyError"
  by (simp add: getitem_def)

lemma getitem_Some [simp]: "map_of d k = Some v \<Longrightarrow> getitem d k = Inr v"
  by (simp add: getitem_def)

lemma map_of_setitem [simp]: "map_of (setitem d k v) = (map_of d)(k \<mapsto> v)"
  by (simp add: setitem_def update_conv')

lemma keys_setitem [simp]: "fst ` set (setitem d k v) = insert k (fst ` set d)"
  by (simp add: setitem_def dom_update)

lemma distinct_setitem [simp]: "distinct (map fst d) \<Longrightarrow> distinct (map fst (setitem d k v))"
  by (simp add: setitem_def distinct_update)

lemma sum_setitem:
  "distinct (map fst d) \<Longrightarrow> map_of d k = Some n \<Longrightarrow>
   sum_list (map snd (setitem d k m)) + n = sum_list (map snd d) + (m::nat)"
  unfolding setitem_def
  by (induction d) (auto split: if_splits simp: rev_image_eqI)

lemma keys_delete [simp]: "fst ` set (AList.delete k d) = fst ` set d - {k}"
  using delete_keys [of k d] by (metis set_map set_removeAll)

lemma update_Inr:
  "update p tid a = Inr p' \<longleftrightarrow>
   (\<exists>t. map_of (tasks p) tid = Some t \<and>
        p' = p\<lparr>tasks := setitem (tasks p) tid (t\<lparr>task_completed := task_completed t + a\<rparr>)\<rparr>)"
  by (auto simp: update_def split: sum.splits)

lemma update_Inl: "update p tid a = Inl e \<longleftrightarrow> map_of (tasks p) tid = None \<and> e = KeyError"
  by (auto simp: update_def split: sum.splits)

lemma stop_task_Inr:
  "stop_task p tid = Inr p' \<longleftrightarrow>
   (\<exists>t. map_of (tasks p) tid = Some t \<and> p' = p\<lparr>tasks := setitem (tasks p) tid (t\<lparr>stopped := True\<rparr>)\<rparr>)"
  by (auto simp: stop_task_def split: sum.splits)

lemma remove_task_Inr:
  "remove_task p tid = Inr p' \<longleftrightarrow>
   (\<exists>t. map_of (tasks p) tid = Some t \<and> p' = p\<lparr>tasks := AList.delete tid (tasks p)\<rparr>)"
  by (auto simp: remove_task_def split: sum.splits)

lemma remove_task_Inl: "remove_task p tid = Inl e \<longleftrightarrow> map_of (tasks p) tid = None \<and> e = KeyError"
  by (auto simp: remove_task_def split: sum.splits)

lemma stop_and_remove_all:
  "distinct (map fst (tasks p)) \<Longrightarrow>
   stop_and_remove (map fst (tasks p)) p = Inr (p\<lparr>tasks := []\<rparr>)"
proof (induction "tasks p" arbitrary: p)
  case Nil
  then show ?case by simp
next
  case (Cons a ts)
  obtain tid t where a: "a = (tid, t)" by (cases a)
  let ?p1 = "p\<lparr>tasks := setitem (tasks p) tid (t\<lparr>stopped := True\<rparr>)\<rparr>"
  let ?p2 = "p\<lparr>tasks := ts\<rparr>"
  from Cons.hyps(2) a have tp: "tasks p = (tid, t) # ts" by simp
  from Cons.prems tp have nin: "tid \<notin> fst ` set ts" and dis: "distinct (map fst ts)" by auto
  have s1: "stop_task p tid = Inr ?p1" by (simp add: stop_task_Inr tp)
  have del: "AList.delete tid ts = ts" using nin by (simp add: delete_id)
  have s2: "remove_task ?p1 tid = Inr ?p2" 
    by (simp add: remove_task_Inr tp del) (simp add: setitem_def del)
  have "stop_and_remove (map fst (tasks ?p2)) ?p2 = Inr (?p2\<lparr>tasks := []\<rparr>)"
    by (rule Cons.hyps(1)) (simp_all add: dis)
  then show ?case using s1 s2 by (simp add: tp)
qed

lemma in_task_ids: "tid \<in> set (task_ids p) \<longleftrightarrow> map_of (tasks p) tid \<noteq> None"
  by (simp add: task_ids_def map_of_eq_None_iff)

lemma task_ids_setitem:
  "task_ids (p\<lparr>tasks := setitem (tasks p) k v\<rparr>) =
     (if k \<in> set (task_ids p) then task_ids p else task_ids p @ [k])"
  by (simp add: task_ids_def setitem_def update_keys)

lemma updateE:
  assumes "update p tid a = Inr p'"
  obtains "tid \<in> set (task_ids p)" "task_ids p' = task_ids p" "task_index p' = task_index p"
    "live p' = live p"
    "completed_of p' = (completed_of p)(tid := map_option (\<lambda>n. n + a) (completed_of p tid))"
proof -
  from assms obtain t where t: "map_of (tasks p) tid = Some t"
    and p': "p' = p\<lparr>tasks := setitem (tasks p) tid (t\<lparr>task_completed := task_completed t + a\<rparr>)\<rparr>"
    by (auto simp: update_Inr)
  have 1: "tid \<in> set (task_ids p)" using t by (simp add: in_task_ids)
  have 2: "task_ids p' = task_ids p" using 1 by (simp add: p' task_ids_setitem)
  have 3: "completed_of p' = (completed_of p)(tid := map_option (\<lambda>n. n + a) (completed_of p tid))"
    by (rule ext) (simp add: completed_of_def p' t)
  show ?thesis using that 1 2 3 by (simp add: p')
qed

lemma update_failE:
  assumes "update p tid a = Inl e"
  obtains "tid \<notin> set (task_ids p)" "e = KeyError"
  using assms by (auto simp: update_Inl in_task_ids)

lemma update_succeeds:
  "tid \<in> set (task_ids p) \<Longrightarrow> \<exists>p'. update p tid a = Inr p'"
  by (auto simp: update_Inr in_task_ids)

lemma add_taskE:
  assumes "add_task p d n = (tid, p')"
  obtains "tid = task_index p" "task_index p' = Suc (task_index p)" "live p' = live p"
    "set (task_ids p') = insert tid (set (task_ids p))"
    "tid \<notin> set (task_ids p) \<Longrightarrow> task_ids p' = task_ids p @ [tid]"
    "completed_of p' = (completed_of p)(tid \<mapsto> 0)"
proof -
  from assms have tid: "tid = task_index p"
    and p': "p' = p\<lparr>tasks := setitem (tasks p) (task_index p)
              \<lparr>description = d, task_total = n, task_completed = 0, stopped = False\<rparr>,
           task_index := task_index p + 1\<rparr>"
    by (auto simp: add_task_def)
  have ids: "task_ids p' = (if tid \<in> set (task_ids p) then task_ids p else task_ids p @ [tid])"
    by (simp add: p' tid task_ids_def setitem_def update_keys)
  have c: "completed_of p' = (completed_of p)(tid \<mapsto> 0)"
    by (rule ext) (simp add: completed_of_def p' tid)
  have "set (task_ids p') = insert tid (set (task_ids p))" using ids by auto
  moreover have "tid \<notin> set (task_ids p) \<Longrightarrow> task_ids p' = task_ids p @ [tid]" using ids by simp
  moreover have "task_index p' = Suc (task_index p)" "live p' = live p" by (simp_all add: p')
  ultimately show ?thesis using that tid c by blast
qed

lemma remove_taskE:
  assumes "remove_task p tid = Inr p'"
  obtains "tid \<in> set (task_ids p)" "task_ids p' = removeAll tid (task_ids p)"
    "task_index p' = task_index p" "live p' = live p"
    "completed_of p' = (completed_of p)(tid := None)"
proof -
  from assms obtain t where t: "map_of (tasks p) tid = Some t"
    and p': "p' = p\<lparr>tasks := AList.delete tid (tasks p)\<rparr>"
    by (auto simp: remove_task_Inr)
  have 1: "tid \<in> set (task_ids p)" using t by (simp add: in_task_ids)
  have 2: "task_ids p' = removeAll tid (task_ids p)" by (simp add: p' task_ids_def delete_keys)
  have 3: "completed_of p' = (completed_of p)(tid := None)"
    by (rule ext) (simp add: completed_of_def p' delete_conv')
  show ?thesis using that 1 2 3 by (simp add: p')
qed

lemma remove_task_failE:
  assumes "remove_task p tid = Inl e"
  obtains "tid \<notin> set (task_ids p)" "e = KeyError"
  using assms by (auto simp: remove_task_Inl in_task_ids)

lemma update_progress_cases:
  obtains
    (no_all) e where "update (progress s) (all_ips_task s) 1 = Inl e"
      "update_progress co res s = Inl (e, s)"
  | (no_block) p1 where "update (progress s) (all_ips_task s) 1 = Inr p1"
      "map_of (cidr_scanned_ips s) (cidr res) = None"
      "update_progress co res s = Inl (KeyError, s\<lparr>progress := p1\<rparr>)"
  | (first) p1 p2 p3 d where "update (progress s) (all_ips_task s) 1 = Inr p1"
      "map_of (cidr_scanned_ips s) (cidr res) = Some 0"
      "add_task p1 d (get_num_ips_in_cidr co (cidr res)) = (task_index p1, p2)"
      "update p2 (task_index p1) 1 = Inr p3"
      "update_progress co res s =
         Inr (s\<lparr>progress := p3,
                cidr_prog_tasks := setitem (cidr_prog_tasks s) (cidr res) (task_index p1)\<rparr>)"
  | (no_entry) p1 n where "update (progress s) (all_ips_task s) 1 = Inr p1"
      "map_of (cidr_scanned_ips s) (cidr res) = Some (Suc n)"
      "map_of (cidr_prog_tasks s) (cidr res) = None"
      "update_progress co res s = Inl (KeyError, s\<lparr>progress := p1\<rparr>)"
  | (removed) p1 n tid where "update (progress s) (all_ips_task s) 1 = Inr p1"
      "map_of (cidr_scanned_ips s) (cidr res) = Some (Suc n)"
      "map_of (cidr_prog_tasks s) (cidr res) = Some tid"
      "tid \<notin> set (task_ids p1)"
      "update_progress co res s = Inl (KeyError, s\<lparr>progress := p1\<rparr>)"
  | (later) p1 n tid p3 where "update (progress s) (all_ips_task s) 1 = Inr p1"
      "map_of (cidr_scanned_ips s) (cidr res) = Some (Suc n)"
      "map_of (cidr_prog_tasks s) (cidr res) = Some tid"
      "update p1 tid 1 = Inr p3"
      "update_progress co res s = Inr (s\<lparr>progress := p3\<rparr>)"
proof (cases "update (progress s) (all_ips_task s) 1")
  case (Inl e)
  then show ?thesis using no_all by (simp add: update_progress_def Let_def)
next
  case p1: (Inr p1)
  show ?thesis
  proof (cases "map_of (cidr_scanned_ips s) (cidr res)")
    case None
    then show ?thesis using no_block p1 by (simp add: update_progress_def Let_def)
  next
    case (Some n)
    show ?thesis
    proof (cases n)
      case 0
      define d where "d = cidr res @ '' - '' @ str_nat (get_num_ips_in_cidr co (cidr res)) @ '' ips''"
      obtain p2 where p2: "add_task p1 d (get_num_ips_in_cidr co (cidr res)) = (task_index p1, p2)"
        by (simp add: add_task_def)
      then have "task_index p1 \<in> set (task_ids p2)" by (auto elim: add_taskE)
      then obtain p3 where p3: "update p2 (task_index p1) 1 = Inr p3"
        using update_succeeds by blast
      have "update_progress co res s =
         Inr (s\<lparr>progress := p3,
                cidr_prog_tasks := setitem (cidr_prog_tasks s) (cidr res) (task_index p1)\<rparr>)"
        using p1 Some 0 p2 p3 by (simp add: update_progress_def d_def Let_def)
      then show ?thesis using first p1 Some 0 p2 p3 by blast
    next
      case (Suc m)
      show ?thesis
      proof (cases "map_of (cidr_prog_tasks s) (cidr res)")
        case None
        then show ?thesis using no_entry p1 Some Suc by (simp add: update_progress_def Let_def)
      next
        case tid: (Some tid)
        show ?thesis
        proof (cases "update p1 tid 1")
          case (Inl e)
          then have "tid \<notin> set (task_ids p1)" "e = KeyError" by (auto elim: update_failE)
          then show ?thesis using removed p1 Some Suc tid Inl by (simp add: update_progress_def Let_def)
        next
          case (Inr p3)
          then show ?thesis using later p1 Some Suc tid by (simp add: update_progress_def Let_def)
        qed
      qed
    qed
  qed
qed

lemma update_progress_frame_conj:
  "cidr_scanned_ips (state_of (update_progress co res s)) = cidr_scanned_ips s \<and>
   outfile (state_of (update_progress co res s)) = outfile s \<and>
   console (state_of (update_progress co res s)) = console s \<and>
   log_file (state_of (update_progress co res s)) = log_file s \<and>
   pool_terminated (state_of (update_progress co res s)) = pool_terminated s \<and>
   all_ips_task (state_of (update_progress co res s)) = all_ips_task s \<and>
   live (progress (state_of (update_progress co res s))) = live (progress s)"
proof (cases rule: update_progress_cases [of s co res])
  case (first p1 p2 p3 d)
  from first(1) have "live p1 = live (progress s)" by (auto elim: updateE)
  moreover from first(3) have "live p2 = live p1" by (auto elim: add_taskE)
  moreover from first(4) have "live p3 = live p2" by (auto elim: updateE)
  ultimately show ?thesis unfolding first(5) by simp
next
  case (later p1 n tid p3)
  from later(1) have "live p1 = live (progress s)" by (auto elim: updateE)
  moreover from later(4) have "live p3 = live p1" by (auto elim: updateE)
  ultimately show ?thesis unfolding later(5) by simp
qed (auto elim: updateE)

lemma update_progress_frame:
  "cidr_scanned_ips (state_of (update_progress co res s)) = cidr_scanned_ips s"
  "outfile (state_of (update_progress co res s)) = outfile s"
  "console (state_of (update_progress co res s)) = console s"
  "log_file (state_of (update_progress co res s)) = log_file s"
  "pool_terminated (state_of (update_progress co res s)) = pool_terminated s"
  "all_ips_task (state_of (update_progress co res s)) = all_ips_task s"
  "live (progress (state_of (update_progress co res s))) = live (progress s)"
  using update_progress_frame_conj [of co res s] by simp_all

lemma update_progress_tracked:
  assumes "update_progress co res s = Inr s'"
  shows "tracked s' (cidr res)" "map_of (cidr_scanned_ips s') (cidr res) \<noteq> None"
proof -
  have "tracked s' (cidr res) \<and> map_of (cidr_scanned_ips s') (cidr res) \<noteq> None"
  proof (cases rule: update_progress_cases [of s co res])
    case (first p1 p2 p3 d)
    from first(3) have "task_index p1 \<in> set (task_ids p2)" by (auto elim: add_taskE)
    moreover from first(4) have "task_ids p3 = task_ids p2" by (auto elim: updateE)
    ultimately show ?thesis using assms first(2) unfolding first(5) by (auto simp: tracked_def)
  next
    case (later p1 n tid p3)
    from later(4) have "tid \<in> set (task_ids p1)" "task_ids p3 = task_ids p1"
      by (auto elim: updateE)
    then show ?thesis using assms later(2,3) unfolding later(5) by (auto simp: tracked_def)
  qed (use assms in auto)
  then show "tracked s' (cidr res)" "map_of (cidr_scanned_ips s') (cidr res) \<noteq> None"
    by simp_all
qed

lemma update_progress_exn:
  assumes "update_progress co res s = Inl (e, s')"
  shows "e = KeyError"
  using assms
  by (cases rule: update_progress_cases [of s co res]; auto elim!: update_failE)

lemma wf_update_progress:
  assumes "wf_state s"
  shows "wf_state (state_of (update_progress co res s))"
proof (cases rule: update_progress_cases [of s co res])
  case (no_all e)
  then show ?thesis using assms by simp
next
  case (no_block p1)
  then show ?thesis using assms by (auto simp: wf_state_def elim!: updateE)
next
  case (first p1 p2 p3 d)
  from first(1) have 1: "task_ids p1 = task_ids (progress s)" "task_index p1 = task_index (progress s)"
    by (auto elim: updateE)
  have fresh: "task_index p1 \<notin> set (task_ids p1)" using assms 1 by (auto simp: wf_state_def)
  from first(3) fresh have 2: "task_ids p2 = task_ids p1 @ [task_index p1]"
    "task_index p2 = Suc (task_index p1)" by (auto elim: add_taskE)
  from first(4) have 3: "task_ids p3 = task_ids p2" "task_index p3 = task_index p2"
    by (auto elim: updateE)
  show ?thesis using assms fresh unfolding first(5) wf_state_def
    by (auto simp: 1 2 3 less_Suc_eq)
next
  case (no_entry p1 n)
  then show ?thesis using assms by (auto simp: wf_state_def elim!: updateE)
next
  case (removed p1 n tid)
  then show ?thesis using assms by (auto simp: wf_state_def elim!: updateE)
next
  case (later p1 n tid p3)
  then show ?thesis using assms by (auto simp: wf_state_def elim!: updateE)
qed

lemma update_progress_overall:
  assumes "wf_state s"
  shows "overall (state_of (update_progress co res s)) = map_option Suc (overall s)"
proof -
  have in_ids: "all_ips_task s \<in> set (task_ids (progress s))" using assms by (simp add: wf_state_def)
  have ov: "\<And>s. overall s = completed_of (progress s) (all_ips_task s)"
    by (simp add: overall_def completed_of_def)
  show ?thesis
  proof (cases rule: update_progress_cases [of s co res])
    case (no_all e)
    then show ?thesis using in_ids by (auto elim: update_failE)
  next
    case (no_block p1)
    then show ?thesis by (auto simp: ov elim!: updateE)
  next
    case (first p1 p2 p3 d)
    from first(1) have 1: "task_ids p1 = task_ids (progress s)" "task_index p1 = task_index (progress s)"
      "completed_of p1 (all_ips_task s) = map_option Suc (completed_of (progress s) (all_ips_task s))"
      by (auto elim: updateE)
    have ne: "task_index p1 \<noteq> all_ips_task s" using assms 1 by (auto simp: wf_state_def)
    from first(3) ne have 2: "completed_of p2 (all_ips_task s) = completed_of p1 (all_ips_task s)"
      by (auto elim!: add_taskE)
    from first(4) ne have 3: "completed_of p3 (all_ips_task s) = completed_of p2 (all_ips_task s)"
      by (auto elim!: updateE)
    show ?thesis unfolding first(5) by (simp add: ov 1 2 3)
  next
    case (no_entry p1 n)
    then show ?thesis by (auto simp: ov elim!: updateE)
  next
    case (removed p1 n tid)
    then show ?thesis by (auto simp: ov elim!: updateE)
  next
    case (later p1 n tid p3)
    from later(1) have 1: 
      "completed_of p1 (all_ips_task s) = map_option Suc (completed_of (progress s) (all_ips_task s))"
      by (auto elim: updateE)
    have ne: "tid \<noteq> all_ips_task s" using assms later(3) by (auto simp: wf_state_def)
    from later(4) ne have 3: "completed_of p3 (all_ips_task s) = completed_of p1 (all_ips_task s)"
      by (auto elim!: updateE)
    show ?thesis unfolding later(5) by (simp add: ov 1 3)
  qed
qed

lemma update_progress_task_index:
  assumes "wf_state s"
  shows "task_index (progress (state_of (update_progress co res s))) =
         task_index (progress s) + (if map_of (cidr_scanned_ips s) (cidr res) = Some 0 then 1 else 0)"
proof -
  have in_ids: "all_ips_task s \<in> set (task_ids (progress s))" using assms by (simp add: wf_state_def)
  show ?thesis
    by (cases rule: update_progress_cases [of s co res])
       (use in_ids in \<open>auto elim!: updateE update_failE add_taskE\<close>)
qed

lemma update_progress_tracked_mono:
  assumes "wf_state s" "tracked (state_of (update_progress co res s)) c"
  shows "tracked s c \<or> (c = cidr res \<and> map_of (cidr_scanned_ips s) (cidr res) = Some 0)"
proof (cases rule: update_progress_cases [of s co res])
  case (no_all e)
  then show ?thesis using assms by simp
next
  case (no_block p1)
  then show ?thesis using assms by (auto simp: tracked_def split: option.splits elim!: updateE)
next
  case (first p1 p2 p3 d)
  from first(1) have 1: "task_ids p1 = task_ids (progress s)" "task_index p1 = task_index (progress s)"
    by (auto elim: updateE)
  from first(3) have 2: "set (task_ids p2) = insert (task_index p1) (set (task_ids p1))"
    by (auto elim: add_taskE)
  from first(4) have 3: "task_ids p3 = task_ids p2" by (auto elim: updateE)
  show ?thesis
  proof (cases "c = cidr res")
    case True
    then show ?thesis using first(2) by simp
  next
    case False
    from assms(2) False obtain tid where tid: "map_of (cidr_prog_tasks s) c = Some tid"
      "tid \<in> set (task_ids p3)"
      unfolding first(5) by (auto simp: tracked_def split: option.splits)
    from assms(1) tid(1) have "tid < task_index (progress s)" by (auto simp: wf_state_def)
    then have "tid \<in> set (task_ids (progress s))" using tid(2) by (simp add: 1 2 3)
    then show ?thesis using tid(1) by (auto simp: tracked_def)
  qed
next
  case (no_entry p1 n)
  then show ?thesis using assms by (auto simp: tracked_def split: option.splits elim!: updateE)
next
  case (removed p1 n tid)
  then show ?thesis using assms by (auto simp: tracked_def split: option.splits elim!: updateE)
next
  case (later p1 n tid p3)
  then show ?thesis using assms by (auto simp: tracked_def split: option.splits elim!: updateE)
qed

lemma try_bind_Inr: "try_bind r f = Inr v \<longleftrightarrow> (\<exists>x. r = Inr x \<and> f x = Inr v)"
  by (cases r) (simp_all add: try_bind_def)

lemma try_bind_Inl: "try_bind r f = Inl e \<longleftrightarrow> r = Inl e \<or> (\<exists>x. r = Inr x \<and> f x = Inl e)"
  by (cases r) (simp_all add: try_bind_def)

lemma mean_Inl: "mean xs = Inl e \<Longrightarrow> e = StatisticsError"
  by (simp add: mean_def split: if_splits)

lemma samples_Inl: "samples res d k = Inl e \<Longrightarrow> e = KeyError"
  by (auto simp: samples_def try_bind_Inl)

lemma summarise_Inl: "summarise co cfg res = Inl e \<Longrightarrow> e = KeyError \<or> e = StatisticsError"
  by (auto simp: summarise_def try_bind_Inl split: if_splits dest: samples_Inl mean_Inl)

lemma res_parts_Inl: "res_parts res sm = Inl e \<Longrightarrow> e = KeyError"
  by (auto simp: res_parts_def try_bind_Inl dest: samples_Inl)

lemma summarise_no_upload:
  assumes "summarise co cfg res = Inr sm" "\<not> do_upload_test cfg"
  shows "up_mean_jitter sm = - 1" "mean_up_speed sm = - 1" "mean_up_latency sm = - 1"
  using assms by (auto simp: summarise_def try_bind_Inr)

lemma res_parts_Inr:
  assumes "res_parts res sm = Inr parts"
  shows "\<exists>ds us dl ul.
           samples res ''download'' ''speed'' = Inr ds \<and> samples res ''upload'' ''speed'' = Inr us \<and>
           samples res ''download'' ''latency'' = Inr dl \<and> samples res ''upload'' ''latency'' = Inr ul \<and>
           parts = [Str (ip res), Num (mean_down_speed sm), Num (mean_up_speed sm),
                    Num (mean_down_latency sm), Num (mean_up_latency sm),
                    Num (down_mean_jitter sm), Num (up_mean_jitter sm)]
                   @ map Num ds @ map Num us @ map Num dl @ map Num ul"
  using assms by (auto simp: res_parts_def try_bind_Inr)

lemma record_result_frame:
  "progress (state_of (record_result co cfg res s)) = progress s"
  "all_ips_task (state_of (record_result co cfg res s)) = all_ips_task s"
  "cidr_scanned_ips (state_of (record_result co cfg res s)) = cidr_scanned_ips s"
  "cidr_prog_tasks (state_of (record_result co cfg res s)) = cidr_prog_tasks s"
  "log_file (state_of (record_result co cfg res s)) = log_file s"
  "pool_terminated (state_of (record_result co cfg res s)) = pool_terminated s"
  by (simp_all add: record_result_def Let_def split: sum.splits)

lemma record_result_Inl:
  assumes "record_result co cfg res s = Inl (e, s')"
  shows "outfile s' = outfile s" "e = KeyError \<or> e = StatisticsError" "is_ok res"
  using assms
  by (auto simp: record_result_def Let_def split: sum.splits if_splits
           dest: summarise_Inl res_parts_Inl)

lemma record_result_Inr:
  assumes "record_result co cfg res s = Inr s'"
  shows "is_ok res \<Longrightarrow> \<exists>sm parts. summarise co cfg res = Inr sm \<and> res_parts res sm = Inr parts
            \<and> outfile s' = outfile s @ [parts]"
    and "\<not> is_ok res \<Longrightarrow> outfile s' = outfile s"
    and "Rprint (message res) \<in> set (console s')"
  using assms
  by (auto simp: record_result_def Let_def split: sum.splits if_splits)

lemma count_scanned_cases:
  obtains
    (no_block) "map_of (cidr_scanned_ips s) (cidr res) = None"
      "count_scanned co res s = Inl (KeyError, s)"
  | (counted) n where "map_of (cidr_scanned_ips s) (cidr res) = Some n"
      "Suc n \<noteq> get_num_ips_in_cidr co (cidr res)"
      "count_scanned co res s =
         Inr (s\<lparr>cidr_scanned_ips := setitem (cidr_scanned_ips s) (cidr res) (Suc n)\<rparr>)"
  | (no_entry) n where "map_of (cidr_scanned_ips s) (cidr res) = Some n"
      "Suc n = get_num_ips_in_cidr co (cidr res)"
      "\<not> tracked s (cidr res)"
      "count_scanned co res s =
         Inl (KeyError, s\<lparr>cidr_scanned_ips := setitem (cidr_scanned_ips s) (cidr res) (Suc n)\<rparr>)"
  | (finished) n tid p where "map_of (cidr_scanned_ips s) (cidr res) = Some n"
      "Suc n = get_num_ips_in_cidr co (cidr res)"
      "map_of (cidr_prog_tasks s) (cidr res) = Some tid"
      "remove_task (progress s) tid = Inr p"
      "count_scanned co res s =
         Inr (s\<lparr>cidr_scanned_ips := setitem (cidr_scanned_ips s) (cidr res) (Suc n),
                progress := p\<rparr>)"
proof (cases "map_of (cidr_scanned_ips s) (cidr res)")
  case None
  then show ?thesis using no_block by (simp add: count_scanned_def)
next
  case (Some n)
  show ?thesis
  proof (cases "Suc n = get_num_ips_in_cidr co (cidr res)")
    case False
    then show ?thesis using counted Some by (simp add: count_scanned_def Let_def)
  next
    case True
    show ?thesis
    proof (cases "map_of (cidr_prog_tasks s) (cidr res)")
      case None
      then have "\<not> tracked s (cidr res)" by (simp add: tracked_def)
      then show ?thesis using no_entry Some True None by (simp add: count_scanned_def Let_def)
    next
      case tid: (Some tid)
      show ?thesis
      proof (cases "remove_task (progress s) tid")
        case (Inl e)
        then have "tid \<notin> set (task_ids (progress s))" "e = KeyError"
          by (auto elim: remove_task_failE)
        then have "\<not> tracked s (cidr res)" using tid by (auto simp: tracked_def)
        then show ?thesis using no_entry Some True tid Inl \<open>e = KeyError\<close>
          by (simp add: count_scanned_def Let_def)
      next
        case (Inr p)
        then show ?thesis using finished Some True tid by (simp add: count_scanned_def Let_def)
      qed
    qed
  qed
qed

lemma wf_state_cong:
  "progress s' = progress s \<Longrightarrow> all_ips_task s' = all_ips_task s \<Longrightarrow>
   cidr_prog_tasks s' = cidr_prog_tasks s \<Longrightarrow> cidr_scanned_ips s' = cidr_scanned_ips s \<Longrightarrow>
   wf_state s' = wf_state s"
  by (simp add: wf_state_def)

lemma tracked_cong:
  "progress s' = progress s \<Longrightarrow> cidr_prog_tasks s' = cidr_prog_tasks s \<Longrightarrow>
   tracked s' c = tracked s c"
  by (simp add: tracked_def)

lemma tracked_update_other [simp]:
  "tracked (s\<lparr>cidr_scanned_ips := d\<rparr>) c = tracked s c"
  "tracked (s\<lparr>outfile := f\<rparr>) c = tracked s c"
  "tracked (s\<lparr>console := out\<rparr>) c = tracked s c"
  "tracked (s\<lparr>log_file := l\<rparr>) c = tracked s c"
  "tracked (s\<lparr>pool_terminated := b\<rparr>) c = tracked s c"
  by (simp_all add: tracked_def)

lemma overall_cong:
  "progress s' = progress s \<Longrightarrow> all_ips_task s' = all_ips_task s \<Longrightarrow> overall s' = overall s"
  by (simp add: overall_def)

lemma count_scanned_frame_conj:
  "outfile (state_of (count_scanned co res s)) = outfile s \<and>
   console (state_of (count_scanned co res s)) = console s \<and>
   log_file (state_of (count_scanned co res s)) = log_file s \<and>
   pool_terminated (state_of (count_scanned co res s)) = pool_terminated s \<and>
   all_ips_task (state_of (count_scanned co res s)) = all_ips_task s \<and>
   cidr_prog_tasks (state_of (count_scanned co res s)) = cidr_prog_tasks s \<and>
   live (progress (state_of (count_scanned co res s))) = live (progress s) \<and>
   task_index (progress (state_of (count_scanned co res s))) = task_index (progress s)"
proof (cases rule: count_scanned_cases [of s res co])
  case (finished n tid p)
  from finished(4) have "live p = live (progress s)" "task_index p = task_index (progress s)"
    by (auto elim: remove_taskE)
  then show ?thesis unfolding finished(5) by simp
qed auto

lemma count_scanned_frame:
  "outfile (state_of (count_scanned co res s)) = outfile s"
  "console (state_of (count_scanned co res s)) = console s"
  "log_file (state_of (count_scanned co res s)) = log_file s"
  "pool_terminated (state_of (count_scanned co res s)) = pool_terminated s"
  "all_ips_task (state_of (count_scanned co res s)) = all_ips_task s"
  "cidr_prog_tasks (state_of (count_scanned co res s)) = cidr_prog_tasks s"
  "live (progress (state_of (count_scanned co res s))) = live (progress s)"
  "task_index (progress (state_of (count_scanned co res s))) = task_index (progress s)"
  using count_scanned_frame_conj [of co res s] by simp_all

lemma wf_count_scanned:
  assumes "wf_state s"
  shows "wf_state (state_of (count_scanned co res s))"
proof (cases rule: count_scanned_cases [of s res co])
  case no_block
  then show ?thesis using assms by simp
next
  case (counted n)
  then show ?thesis using assms by (auto simp: wf_state_def)
next
  case (no_entry n)
  then show ?thesis using assms by (auto simp: wf_state_def)
next
  case (finished n tid p)
  from assms finished(3) have "tid \<noteq> all_ips_task s" by (auto simp: wf_state_def)
  then show ?thesis using assms finished(4) unfolding finished(5)
    by (auto simp: wf_state_def distinct_removeAll elim!: remove_taskE)
qed

lemma count_scanned_tracked:
  assumes "tracked s (cidr res)" "map_of (cidr_scanned_ips s) (cidr res) = Some n"
  shows "\<exists>s'. count_scanned co res s = Inr s' \<and>
    cidr_scanned_ips s' = setitem (cidr_scanned_ips s) (cidr res) (Suc n) \<and>
    (Suc n = get_num_ips_in_cidr co (cidr res) \<longrightarrow> \<not> tracked s' (cidr res)) \<and>
    (\<forall>c. tracked s' c \<longrightarrow> tracked s c)"
proof (cases rule: count_scanned_cases [of s res co])
  case no_block
  then show ?thesis using assms by simp
next
  case (counted m)
  then show ?thesis using assms by auto
next
  case (no_entry m)
  then show ?thesis using assms by simp
next
  case (finished m tid p)
  let ?s' = "s\<lparr>cidr_scanned_ips := setitem (cidr_scanned_ips s) (cidr res) (Suc m), progress := p\<rparr>"
  from finished(4) have p: "task_ids p = removeAll tid (task_ids (progress s))"
    by (auto elim: remove_taskE)
  have 1: "\<not> tracked ?s' (cidr res)" using finished(3) p by (auto simp: tracked_def)
  have 2: "\<forall>c. tracked ?s' c \<longrightarrow> tracked s c" using p by (auto simp: tracked_def)
  have nm: "n = m" using finished(1) assms(2) by simp
  have 3: "cidr_scanned_ips ?s' = setitem (cidr_scanned_ips s) (cidr res) (Suc n)"
    by (simp add: nm)
  have 4: "count_scanned co res s = Inr ?s'" using finished(5) by simp
  show ?thesis
    apply (rule exI [of _ ?s'])
    using 1 2 3 4 apply blast
    done
qed

lemma state_of_then_do:
  "state_of (then_do r f) = (case r of Inl x \<Rightarrow> snd x | Inr s \<Rightarrow> state_of (f s))"
  by (cases r) (auto simp: then_do_def)

lemma process_result_cases:
  obtains
    (raised_progress) e s1 where "update_progress co res s = Inl (e, s1)"
      "process_result co cfg res s = Inl (e, s1)"
  | (raised_record) s1 e s2 where "update_progress co res s = Inr s1"
      "record_result co cfg res s1 = Inl (e, s2)"
      "process_result co cfg res s = Inl (e, s2)"
  | (processed) s1 s2 s3 n where "update_progress co res s = Inr s1"
      "record_result co cfg res s1 = Inr s2"
      "map_of (cidr_scanned_ips s) (cidr res) = Some n"
      "count_scanned co res s2 = Inr s3"
      "cidr_scanned_ips s3 = setitem (cidr_scanned_ips s) (cidr res) (Suc n)"
      "process_result co cfg res s = Inr s3"
proof (cases "update_progress co res s")
  case (Inl x)
  then show ?thesis using raised_progress [of "fst x" "snd x"] by (simp add: process_result_def then_do_def)
next
  case s1: (Inr s1)
  show ?thesis
  proof (cases "record_result co cfg res s1")
    case (Inl x)
    then show ?thesis using raised_record [of s1 "fst x" "snd x"] s1
      by (simp add: process_result_def then_do_def)
  next
    case s2: (Inr s2)
    have f1: "cidr_scanned_ips s1 = cidr_scanned_ips s"
      using update_progress_frame(1) [of co res s] s1 by simp
    have f2: "cidr_scanned_ips s2 = cidr_scanned_ips s1" "progress s2 = progress s1"
      "cidr_prog_tasks s2 = cidr_prog_tasks s1"
      using record_result_frame [of co cfg res s1] s2 by simp_all
    from update_progress_tracked [OF s1] have "tracked s1 (cidr res)"
      "map_of (cidr_scanned_ips s1) (cidr res) \<noteq> None" by simp_all
    then obtain n where tr: "tracked s2 (cidr res)" and n: "map_of (cidr_scanned_ips s2) (cidr res) = Some n"
      using f2 tracked_cong [of s2 s1 "cidr res"] by auto
    from count_scanned_tracked [OF tr n, of co] obtain s3 where
      s3: "count_scanned co res s2 = Inr s3"
        "cidr_scanned_ips s3 = setitem (cidr_scanned_ips s2) (cidr res) (Suc n)"
      by (elim exE conjE)
    show ?thesis using processed [of s1 s2 n s3] s1 s2 s3 n f1 f2
      by (simp add: process_result_def then_do_def)
  qed
qed

lemma process_result_Inl:
  assumes "process_result co cfg res s = Inl (e, s1)"
  shows "e = KeyError \<or> e = StatisticsError"
    and "cidr_scanned_ips s1 = cidr_scanned_ips s"
    and "outfile s1 = outfile s"
    and "log_file s1 = log_file s"
    and "pool_terminated s1 = pool_terminated s"
    and "all_ips_task s1 = all_ips_task s"
    and "live (progress s1) = live (progress s)"
proof -
  have "(e = KeyError \<or> e = StatisticsError) \<and> cidr_scanned_ips s1 = cidr_scanned_ips s \<and>
        outfile s1 = outfile s \<and> log_file s1 = log_file s \<and>
        pool_terminated s1 = pool_terminated s \<and> all_ips_task s1 = all_ips_task s \<and>
        live (progress s1) = live (progress s)"
  proof (cases rule: process_result_cases [of co res s cfg])
    case (raised_progress e' s1')
    with assms have eq: "e' = e" "s1' = s1" by simp_all
    from raised_progress(1) have "state_of (update_progress co res s) = s1" by (simp add: eq)
    then show ?thesis
      using update_progress_frame [of co res s] update_progress_exn [OF raised_progress(1)]
      by (auto simp: eq)
  next
    case (raised_record s1' e' s2)
    with assms have eq: "e' = e" "s2 = s1" by simp_all
    from raised_record(1) have a: "state_of (update_progress co res s) = s1'" by simp
    from raised_record(2) have b: "state_of (record_result co cfg res s1') = s1" by (simp add: eq)
    show ?thesis
      using update_progress_frame [of co res s] record_result_frame [of co cfg res s1']
        record_result_Inl [OF raised_record(2)]
      by (auto simp: a b eq)
  next
    case (processed s1' s2 s3 n)
    with assms show ?thesis by simp
  qed
  then show "e = KeyError \<or> e = StatisticsError"
    and "cidr_scanned_ips s1 = cidr_scanned_ips s"
    and "outfile s1 = outfile s"
    and "log_file s1 = log_file s"
    and "pool_terminated s1 = pool_terminated s"
    and "all_ips_task s1 = all_ips_task s"
    and "live (progress s1) = live (progress s)" by simp_all
qed

lemma process_result_Inr:
  assumes "process_result co cfg res s = Inr s3"
  shows "\<exists>n. map_of (cidr_scanned_ips s) (cidr res) = Some n \<and>
             cidr_scanned_ips s3 = setitem (cidr_scanned_ips s) (cidr res) (Suc n)"
    and "log_file s3 = log_file s"
    and "pool_terminated s3 = pool_terminated s"
    and "all_ips_task s3 = all_ips_task s"
    and "live (progress s3) = live (progress s)"
    and "is_ok res \<Longrightarrow> \<exists>sm parts. summarise co cfg res = Inr sm \<and> res_parts res sm = Inr parts
            \<and> outfile s3 = outfile s @ [parts]"
    and "\<not> is_ok res \<Longrightarrow> outfile s3 = outfile s"
proof -
  from assms obtain s1 s2 n where
    1: "update_progress co res s = Inr s1" and 2: "record_result co cfg res s1 = Inr s2"
    and n: "map_of (cidr_scanned_ips s) (cidr res) = Some n"
    and 3: "count_scanned co res s2 = Inr s3"
    and sc: "cidr_scanned_ips s3 = setitem (cidr_scanned_ips s) (cidr res) (Suc n)"
    by (cases rule: process_result_cases [of co res s cfg]) auto
  from 1 have a: "state_of (update_progress co res s) = s1" by simp
  from 2 have b: "state_of (record_result co cfg res s1) = s2" by simp
  from 3 have c: "state_of (count_scanned co res s2) = s3" by simp
  note fr = update_progress_frame [of co res s, unfolded a]
    record_result_frame [of co cfg res s1, unfolded b]
    count_scanned_frame [of co res s2, unfolded c]
  show "\<exists>n. map_of (cidr_scanned_ips s) (cidr res) = Some n \<and>
             cidr_scanned_ips s3 = setitem (cidr_scanned_ips s) (cidr res) (Suc n)"
    using n sc by blast
  show "log_file s3 = log_file s" "pool_terminated s3 = pool_terminated s"
    "all_ips_task s3 = all_ips_task s" "live (progress s3) = live (progress s)"
    using fr by simp_all
  show "is_ok res \<Longrightarrow> \<exists>sm parts. summarise co cfg res = Inr sm \<and> res_parts res sm = Inr parts
            \<and> outfile s3 = outfile s @ [parts]"
    using record_result_Inr(1) [OF 2] fr by simp
  show "\<not> is_ok res \<Longrightarrow> outfile s3 = outfile s"
    using record_result_Inr(2) [OF 2] fr by simp
qed

lemma wf_process_result:
  assumes "wf_state s"
  shows "wf_state (state_of (process_result co cfg res s))"
proof (cases rule: process_result_cases [of co res s cfg])
  case (raised_progress e s1)
  then show ?thesis using wf_update_progress [OF assms, of co res] by simp
next
  case (raised_record s1 e s2)
  from raised_record(1) have "wf_state s1" using wf_update_progress [OF assms, of co res] by simp
  moreover from raised_record(2) have "state_of (record_result co cfg res s1) = s2" by simp
  ultimately have "wf_state s2"
    using record_result_frame [of co cfg res s1] wf_state_cong [of s2 s1] by simp
  then show ?thesis using raised_record(3) by simp
next
  case (processed s1 s2 s3 n)
  from processed(1) have "wf_state s1" using wf_update_progress [OF assms, of co res] by simp
  moreover from processed(2) have "state_of (record_result co cfg res s1) = s2" by simp
  ultimately have "wf_state s2"
    using record_result_frame [of co cfg res s1] wf_state_cong [of s2 s1] by simp
  then have "wf_state (state_of (count_scanned co res s2))" by (rule wf_count_scanned)
  then show ?thesis using processed(4,6) by simp
qed

section \<open>Properties of one pass and of the loop\<close>

lemma overall_completed_of: "overall s = completed_of (progress s) (all_ips_task s)"
  by (simp add: overall_def completed_of_def)

lemma count_scanned_overall:
  assumes "wf_state s"
  shows "overall (state_of (count_scanned co res s)) = overall s"
proof (cases rule: count_scanned_cases [of s res co])
  case (finished n tid p)
  from assms finished(3) have "tid \<noteq> all_ips_task s" by (auto simp: wf_state_def)
  moreover from finished(4) have "completed_of p = (completed_of (progress s))(tid := None)"
    by (auto elim: remove_taskE)
  ultimately show ?thesis unfolding finished(5) by (simp add: overall_completed_of)
qed (auto simp: overall_def)

lemma process_result_overall:
  assumes "wf_state s"
  shows "overall (state_of (process_result co cfg res s)) = map_option Suc (overall s)"
proof -
  note up = update_progress_overall [OF assms, of co res]
  show ?thesis
  proof (cases rule: process_result_cases [of co res s cfg])
    case (raised_progress e s1)
    then show ?thesis using up by simp
  next
    case (raised_record s1 e s2)
    from raised_record(2) have "state_of (record_result co cfg res s1) = s2" by simp
    then have "overall s2 = overall s1"
      using record_result_frame [of co cfg res s1] overall_cong [of s2 s1] by simp
    then show ?thesis using up raised_record by simp
  next
    case (processed s1 s2 s3 n)
    from processed(1) have w1: "wf_state s1" using wf_update_progress [OF assms, of co res] by simp
    from processed(2) have b: "state_of (record_result co cfg res s1) = s2" by simp
    have w2: "wf_state s2" using w1 record_result_frame [of co cfg res s1] wf_state_cong [of s2 s1]
      by (simp add: b)
    have "overall s2 = overall s1"
      using record_result_frame [of co cfg res s1] overall_cong [of s2 s1] by (simp add: b)
    moreover have "overall s3 = overall s2"
      using count_scanned_overall [OF w2, of co res] processed(4) by simp
    ultimately show ?thesis using up processed by simp
  qed
qed

lemma process_result_task_index:
  assumes "wf_state s"
  shows "task_index (progress (state_of (process_result co cfg res s))) =
         task_index (progress s) + (if map_of (cidr_scanned_ips s) (cidr res) = Some 0 then 1 else 0)"
proof -
  note up = update_progress_task_index [OF assms, of co res]
  show ?thesis
  proof (cases rule: process_result_cases [of co res s cfg])
    case (raised_progress e s1)
    then show ?thesis using up by simp
  next
    case (raised_record s1 e s2)
    from raised_record(2) have "state_of (record_result co cfg res s1) = s2" by simp
    then have "progress s2 = progress s1"
      using record_result_frame [of co cfg res s1] by simp
    then show ?thesis using up raised_record by simp
  next
    case (processed s1 s2 s3 n)
    from processed(2) have b: "state_of (record_result co cfg res s1) = s2" by simp
    have "progress s2 = progress s1"
      using record_result_frame [of co cfg res s1] by (simp add: b)
    moreover have "task_index (progress s3) = task_index (progress s2)"
      using count_scanned_frame(8) [of co res s2] processed(4) by simp
    ultimately show ?thesis using up processed by simp
  qed
qed

lemma handle_other: "e \<noteq> StartProxyServiceError \<Longrightarrow> handle e s = on_exception e s"
  by (simp add: handle_def)

lemma iteration_Yield_raised:
  assumes "process_result co cfg res s = Inl (e, s1)"
  shows "iteration co cfg (Yield res) s = on_exception e s1"
proof -
  from process_result_Inl(1) [OF assms] have "e \<noteq> StartProxyServiceError" by auto
  then show ?thesis using assms by (simp add: iteration_def handle_other)
qed

lemma iteration_Yield_done:
  "process_result co cfg res s = Inr s1 \<Longrightarrow> iteration co cfg (Yield res) s = Continue s1"
  by (simp add: iteration_def)

lemma iteration_Yield:
  "iteration co cfg (Yield res) s =
     (case process_result co cfg res s of
        Inl (e, s1) \<Rightarrow> on_exception e s1
      | Inr s1 \<Rightarrow> Continue s1)"
  by (cases "process_result co cfg res s")
     (auto simp: iteration_Yield_raised iteration_Yield_done)

lemma teardown:
  assumes "wf_state s"
  shows "stop_and_remove (task_ids (progress s)) (progress s) = Inr ((progress s)\<lparr>tasks := []\<rparr>)"
proof -
  from assms have "distinct (map fst (tasks (progress s)))"
    by (simp add: wf_state_def task_ids_def)
  from stop_and_remove_all [OF this] show ?thesis by (simp add: task_ids_def)
qed

lemma on_stop_iteration_wf:
  "wf_state s \<Longrightarrow> on_stop_iteration s =
     Break (s\<lparr>progress := stop ((progress s)\<lparr>tasks := []\<rparr>),
              console := console s @ [ProgressLog ''Finished scanning ips.'']\<rparr>)"
  by (simp add: on_stop_iteration_def teardown)

lemma on_keyboard_interrupt_wf:
  "wf_state s \<Longrightarrow> on_keyboard_interrupt s =
     Break (s\<lparr>progress := stop ((progress s)\<lparr>tasks := []\<rparr>),
              console := console s
                 @ [ProgressLog ''[yellow]KeyboardInterrupt detected (scan phase)[/yellow]''],
              pool_terminated := True\<rparr>)"
  by (simp add: on_keyboard_interrupt_def teardown)

lemma iteration_Continue_cases:
  assumes "iteration co cfg out s = Continue s'" "wf_state s"
  obtains
    (processed) res where "out = Yield res" "process_result co cfg res s = Inr s'"
  | (raised) res e s1 where "out = Yield res" "process_result co cfg res s = Inl (e, s1)"
      "s' = s1\<lparr>console := console s1 @ [ProgressLog ''[red]Unknown error![/red]'', PrintException e],
               log_file := log_file s1 @ [e]\<rparr>"
  | (worker) e where "out = Raise e" "e \<noteq> StartProxyServiceError"
      "s' = s\<lparr>console := console s @ [ProgressLog ''[red]Unknown error![/red]'', PrintException e],
              log_file := log_file s @ [e]\<rparr>"
proof (cases out)
  case (Yield res)
  show ?thesis
  proof (cases "process_result co cfg res s")
    case (Inl x)
    obtain e s1 where x: "x = (e, s1)" by (cases x)
    from assms(1) have "s' = s1\<lparr>console := console s1 @ [ProgressLog ''[red]Unknown error![/red]'', PrintException e],
               log_file := log_file s1 @ [e]\<rparr>"
      by (simp add: Yield iteration_Yield Inl x on_exception_def)
    then show ?thesis using raised Yield Inl x by blast
  next
    case (Inr s1)
    then show ?thesis using processed assms(1) Yield by (simp add: iteration_Yield)
  qed
next
  case (Raise e)
  show ?thesis
  proof (cases "e = StartProxyServiceError")
    case True
    then show ?thesis using assms(1) Raise
      by (simp add: iteration_def handle_def on_start_proxy_service_error_def)
  next
    case False
    then show ?thesis using worker assms(1) Raise
      by (simp add: iteration_def handle_other on_exception_def)
  qed
next
  case KeyboardInterrupt
  then show ?thesis using assms by (simp add: iteration_def on_keyboard_interrupt_wf)
next
  case StopIteration
  then show ?thesis using assms by (simp add: iteration_def on_stop_iteration_wf)
qed

lemma wf_iteration:
  assumes "iteration co cfg out s = Continue s'" "wf_state s"
  shows "wf_state s'"
  using assms
proof (cases rule: iteration_Continue_cases)
  case (processed res)
  then show ?thesis using wf_process_result [OF assms(2), of co cfg res] by simp
next
  case (raised res e s1)
  then have "wf_state s1" using wf_process_result [OF assms(2), of co cfg res] by simp
  then show ?thesis unfolding raised(3) by (simp add: wf_state_def)
next
  case (worker e)
  then show ?thesis using assms(2) by (simp add: wf_state_def)
qed

lemma scanned_sum_setitem:
  assumes "wf_state s" "map_of (cidr_scanned_ips s) c = Some n"
    "cidr_scanned_ips s' = setitem (cidr_scanned_ips s) c (Suc n)"
  shows "scanned_sum s' = Suc (scanned_sum s)"
proof -
  from assms(1) have "distinct (map fst (cidr_scanned_ips s))" by (simp add: wf_state_def)
  from sum_setitem [OF this assms(2), of "Suc n"] show ?thesis
    by (simp add: scanned_sum_def assms(3))
qed

lemma counters_iteration:
  assumes "iteration co cfg out s = Continue s'" "wf_state s"
  shows "overall s' = map_option (\<lambda>k. k + (if is_yield out then 1 else 0)) (overall s)"
    and "scanned_sum s' + length (log_file s') = Suc (scanned_sum s + length (log_file s))"
    and "scanned_sum s \<le> scanned_sum s'"
    and "scanned_sum s' \<le> scanned_sum s + (if is_yield out then 1 else 0)"
    and "length (log_file s) \<le> length (log_file s')"
proof -
  have "overall s' = map_option (\<lambda>k. k + (if is_yield out then 1 else 0)) (overall s) \<and>
        scanned_sum s' + length (log_file s') = Suc (scanned_sum s + length (log_file s)) \<and>
        scanned_sum s \<le> scanned_sum s' \<and>
        scanned_sum s' \<le> scanned_sum s + (if is_yield out then 1 else 0) \<and>
        length (log_file s) \<le> length (log_file s')"
    using assms
  proof (cases rule: iteration_Continue_cases)
    case (processed res)
    from process_result_Inr(1) [OF processed(2)] obtain n where
      n: "map_of (cidr_scanned_ips s) (cidr res) = Some n"
        "cidr_scanned_ips s' = setitem (cidr_scanned_ips s) (cidr res) (Suc n)" by blast
    have 1: "scanned_sum s' = Suc (scanned_sum s)" by (rule scanned_sum_setitem [OF assms(2) n])
    have 2: "log_file s' = log_file s" by (rule process_result_Inr(2) [OF processed(2)])
    have 3: "overall s' = map_option Suc (overall s)"
      using process_result_overall [OF assms(2), of co cfg res] processed(2) by simp
    have 4: "(\<lambda>k. k + 1) = Suc" by auto
    show ?thesis by (simp add: processed(1) 1 2 3 4)
  next
    case (raised res e s1)
    have 1: "scanned_sum s' = scanned_sum s"
      using process_result_Inl(2) [OF raised(2)] by (simp add: scanned_sum_def raised(3))
    have 2: "log_file s' = log_file s @ [e]"
      using process_result_Inl(4) [OF raised(2)] by (simp add: raised(3))
    have "overall s1 = map_option Suc (overall s)"
      using process_result_overall [OF assms(2), of co cfg res] raised(2) by simp
    then have 3: "overall s' = map_option Suc (overall s)"
      by (simp add: raised(3) overall_def)
    have 4: "(\<lambda>k. k + 1) = Suc" by auto
    show ?thesis by (simp add: raised(1) 1 2 3 4)
  next
    case (worker e)
    have "map_option (\<lambda>k. k) (overall s) = overall s" by (simp add: option.map_ident)
    then show ?thesis by (simp add: worker overall_def scanned_sum_def)
  qed
  then show "overall s' = map_option (\<lambda>k. k + (if is_yield out then 1 else 0)) (overall s)"
    and "scanned_sum s' + length (log_file s') = Suc (scanned_sum s + length (log_file s))"
    and "scanned_sum s \<le> scanned_sum s'"
    and "scanned_sum s' \<le> scanned_sum s + (if is_yield out then 1 else 0)"
    and "length (log_file s) \<le> length (log_file s')" by simp_all
qed

lemma flow_state_on_exception:
  "flow_state (on_exception e s) =
     s\<lparr>console := console s @ [ProgressLog ''[red]Unknown error![/red]'', PrintException e],
       log_file := log_file s @ [e]\<rparr>"
  by (simp add: on_exception_def)

lemma handler_frames:
  "cidr_scanned_ips (flow_state (handle e s)) = cidr_scanned_ips s"
  "cidr_scanned_ips (flow_state (on_stop_iteration s)) = cidr_scanned_ips s"
  "cidr_scanned_ips (flow_state (on_keyboard_interrupt s)) = cidr_scanned_ips s"
  "outfile (flow_state (handle e s)) = outfile s"
  "outfile (flow_state (on_stop_iteration s)) = outfile s"
  "outfile (flow_state (on_keyboard_interrupt s)) = outfile s"
  "cidr_prog_tasks (flow_state (handle e s)) = cidr_prog_tasks s"
  "task_ids (progress (flow_state (handle e s))) = task_ids (progress s)"
  by (simp_all add: handle_def on_start_proxy_service_error_def on_exception_def
        on_stop_iteration_def on_keyboard_interrupt_def stop_def task_ids_def
      split: sum.splits prod.splits)

lemma scanned_mono_iteration:
  assumes "map_of (cidr_scanned_ips s) c = Some n"
  shows "\<exists>n'. n \<le> n' \<and> map_of (cidr_scanned_ips (flow_state (iteration co cfg out s))) c = Some n'"
proof (cases out)
  case (Yield res)
  show ?thesis
  proof (cases "process_result co cfg res s")
    case (Inl x)
    obtain e s1 where x: "x = (e, s1)" by (cases x)
    from process_result_Inl(2) [of co cfg res s e s1] Inl x
    have "cidr_scanned_ips s1 = cidr_scanned_ips s" by simp
    then show ?thesis using assms
      by (simp add: Yield iteration_Yield Inl x flow_state_on_exception)
  next
    case (Inr s1)
    from process_result_Inr(1) [OF Inr] obtain m where
      m: "map_of (cidr_scanned_ips s) (cidr res) = Some m"
        "cidr_scanned_ips s1 = setitem (cidr_scanned_ips s) (cidr res) (Suc m)" by blast
    show ?thesis using assms m by (auto simp: Yield iteration_Yield Inr)
  qed
qed (use assms in \<open>simp_all add: iteration_def handler_frames\<close>)

lemma outfile_iteration:
  "\<exists>rows. outfile (flow_state (iteration co cfg out s)) = outfile s @ rows"
proof (cases out)
  case (Yield res)
  show ?thesis
  proof (cases "process_result co cfg res s")
    case (Inl x)
    obtain e s1 where x: "x = (e, s1)" by (cases x)
    from process_result_Inl(3) [of co cfg res s e s1] Inl x
    have "outfile s1 = outfile s" by simp
    then show ?thesis
      by (simp add: Yield iteration_Yield Inl x flow_state_on_exception)
  next
    case (Inr s1)
    show ?thesis
      using process_result_Inr(6,7) [OF Inr]
      by (cases "is_ok res") (auto simp: Yield iteration_Yield Inr)
  qed
qed (simp_all add: iteration_def handler_frames)

lemma scan_prefix_append:
  "scan_prefix co cfg (xs @ ys) s =
     (case scan_prefix co cfg xs s of
        Continue s1 \<Rightarrow> scan_prefix co cfg ys s1
      | Break s1 \<Rightarrow> Break s1
      | Uncaught e s1 \<Rightarrow> Uncaught e s1)"
  by (induction xs arbitrary: s) (auto split: flow.splits)

lemma scan_loop_append:
  "scan_loop co cfg (xs @ ys) s =
     (case scan_prefix co cfg xs s of
        Continue s1 \<Rightarrow> scan_loop co cfg ys s1
      | Break s1 \<Rightarrow> Break s1
      | Uncaught e s1 \<Rightarrow> Uncaught e s1)"
  by (induction xs arbitrary: s) (auto split: flow.splits)

lemma wf_scan_prefix:
  "scan_prefix co cfg outs s = Continue s' \<Longrightarrow> wf_state s \<Longrightarrow> wf_state s'"
proof (induction outs arbitrary: s)
  case Nil
  then show ?case by simp
next
  case (Cons out outs)
  then show ?case by (auto split: flow.splits dest: wf_iteration)
qed

lemma scanned_mono_scan_prefix:
  "map_of (cidr_scanned_ips s) c = Some n \<Longrightarrow>
   \<exists>n'. n \<le> n' \<and> map_of (cidr_scanned_ips (flow_state (scan_prefix co cfg outs s))) c = Some n'"
proof (induction outs arbitrary: s n)
  case Nil
  then show ?case by simp
next
  case (Cons out outs)
  from scanned_mono_iteration [OF Cons.prems, of co cfg out] obtain m where
    m: "n \<le> m" "map_of (cidr_scanned_ips (flow_state (iteration co cfg out s))) c = Some m"
    by blast
  show ?case
  proof (cases "iteration co cfg out s")
    case (Continue s1)
    with m have "map_of (cidr_scanned_ips s1) c = Some m" by simp
    from Cons.IH [OF this] obtain n' where "m \<le> n'"
      "map_of (cidr_scanned_ips (flow_state (scan_prefix co cfg outs s1))) c = Some n'" by blast
    then show ?thesis using m(1) Continue by (auto intro: exI [of _ n'])
  qed (use m in auto)
qed

lemma counters_scan_prefix:
  "scan_prefix co cfg outs s = Continue s' \<Longrightarrow> wf_state s \<Longrightarrow>
   overall s' = map_option (\<lambda>k. k + yields outs) (overall s) \<and>
   scanned_sum s' + length (log_file s') = scanned_sum s + length (log_file s) + length outs \<and>
   scanned_sum s' \<le> scanned_sum s + yields outs \<and>
   length (log_file s) \<le> length (log_file s')"
proof (induction outs arbitrary: s)
  case Nil
  then show ?case by (simp add: yields_def option.map_ident)
next
  case (Cons out outs)
  from Cons.prems(1) obtain s1 where s1: "iteration co cfg out s = Continue s1"
    "scan_prefix co cfg outs s1 = Continue s'" by (auto split: flow.splits)
  note it = counters_iteration [OF s1(1) Cons.prems(2)]
  have w1: "wf_state s1" using s1(1) Cons.prems(2) by (rule wf_iteration)
  note ih = Cons.IH [OF s1(2) w1]
  have y: "yields (out # outs) = (if is_yield out then 1 else 0) + yields outs"
    by (simp add: yields_def)
  have "overall s' = map_option (\<lambda>k. k + yields (out # outs)) (overall s)"
    using ih it(1) by (cases "overall s") (simp_all add: y)
  moreover have "scanned_sum s' + length (log_file s') =
      scanned_sum s + length (log_file s) + length (out # outs)"
    using ih it(2) by simp
  moreover have "scanned_sum s' \<le> scanned_sum s + yields (out # outs)"
    using ih it(4) by (simp add: y)
  moreover have "length (log_file s) \<le> length (log_file s')" using ih it(5) by simp
  ultimately show ?case by blast
qed








section \<open>The state in which the loop starts\<close>

lemma snd_setitem: "snd ` set (setitem d k v) \<subseteq> insert v (snd ` set d)"
  unfolding setitem_def by (induction d) auto

lemma foldl_setitem_zero:
  "distinct (map fst d) \<Longrightarrow> snd ` set d \<subseteq> {0::nat} \<Longrightarrow>
   distinct (map fst (foldl (\<lambda>d c. setitem d c 0) d cs)) \<and>
   snd ` set (foldl (\<lambda>d c. setitem d c 0) d cs) \<subseteq> {0} \<and>
   fst ` set (foldl (\<lambda>d c. setitem d c 0) d cs) = fst ` set d \<union> set cs"
proof (induction cs arbitrary: d)
  case Nil
  then show ?case by simp
next
  case (Cons c cs)
  have "distinct (map fst (setitem d c 0))" using Cons.prems(1) by simp
  moreover have "snd ` set (setitem d c (0::nat)) \<subseteq> {0}"
    using snd_setitem [of d c 0] Cons.prems(2) by auto
  ultimately show ?case using Cons.IH [of "setitem d c 0"] by auto
qed

lemma sum_list_zero: "snd ` set d \<subseteq> {0::nat} \<Longrightarrow> sum_list (map snd d) = 0"
  by (induction d) auto

lemma initial_state_fields:
  "task_ids (progress (initial_state co cfg cidr_list)) = [0]"
  "task_index (progress (initial_state co cfg cidr_list)) = 1"
  "live (progress (initial_state co cfg cidr_list))"
  "all_ips_task (initial_state co cfg cidr_list) = 0"
  "cidr_prog_tasks (initial_state co cfg cidr_list) = []"
  "cidr_scanned_ips (initial_state co cfg cidr_list) = foldl (\<lambda>d c. setitem d c 0) [] cidr_list"
  "outfile (initial_state co cfg cidr_list) = [map Str (titles (n_tries cfg))]"
  "log_file (initial_state co cfg cidr_list) = []"
  "console (initial_state co cfg cidr_list) = []"
  "\<not> pool_terminated (initial_state co cfg cidr_list)"
  "overall (initial_state co cfg cidr_list) = Some 0"
  by (simp_all add: initial_state_def Let_def add_task_def Progress_def task_ids_def setitem_def
        overall_def)

lemma initial_wf: "wf_state (initial_state co cfg cidr_list)"
  using foldl_setitem_zero [of "[]" cidr_list]
  by (simp add: wf_state_def initial_state_fields)

lemma initial_scanned:
  "map_of (cidr_scanned_ips (initial_state co cfg cidr_list)) c =
     (if c \<in> set cidr_list then Some 0 else None)"
proof -
  let ?d = "foldl (\<lambda>d c. setitem d c (0::nat)) [] cidr_list"
  from foldl_setitem_zero [of "[]" cidr_list]
  have k: "fst ` set ?d = set cidr_list" and z: "snd ` set ?d \<subseteq> {0}" by simp_all
  show ?thesis
  proof (cases "c \<in> set cidr_list")
    case True
    then have "map_of ?d c \<noteq> None" using k by (simp add: map_of_eq_None_iff)
    then obtain v where v: "map_of ?d c = Some v" by blast
    then have "(c, v) \<in> set ?d" by (rule map_of_SomeD)
    then have "v = 0" using z by force
    then show ?thesis using True v by (simp add: initial_state_fields(6))
  next
    case False
    then have "map_of ?d c = None" using k by (simp add: map_of_eq_None_iff)
    then show ?thesis using False by (simp add: initial_state_fields(6))
  qed
qed

lemma initial_scanned_sum: "scanned_sum (initial_state co cfg cidr_list) = 0"
  using foldl_setitem_zero [of "[]" cidr_list]
  by (simp add: scanned_sum_def initial_state_fields sum_list_zero)

section \<open>Running the model\<close>

lemmas example_defs = jitter_def two_ips_def no_upload_def probe_ok_def probe_without_upload_def
  probe_empty_upload_def

lemmas model_defs = update_progress_def record_result_def count_scanned_def process_result_def
  then_do_def try_bind_def summarise_def res_parts_def samples_def mean_def
  add_task_def update_def remove_task_def stop_task_def stop_def task_ids_def
  iteration_def handle_def on_exception_def on_start_proxy_service_error_def
  on_stop_iteration_def on_keyboard_interrupt_def run_scan_def leave_with_blocks_def
  initial_state_def Progress_def setitem_def getitem_def Let_def

section \<open>The claims\<close>




text \<open>
  Claim C2, as stated, fails in its last part: a scan that the fatal start error stops
  leaves the loop by \<^verbatim>\<open>break\<close> and the script ends with exit status 0.
\<close>

theorem C2_counterexample:
  "log_file (fst (run_scan two_ips no_upload one_block
      [Yield probe_ok, Raise StartProxyServiceError])) = [StartProxyServiceError] \<and>
   snd (run_scan two_ips no_upload one_block
      [Yield probe_ok, Raise StartProxyServiceError]) = 0"
  by (simp add: model_defs example_defs one_block_def)

text \<open>
  Claim C2, amended. When \<^verbatim>\<open>next(iterator)\<close> raises the fatal start error while the scan
  is running, the loop stops at once, whatever outcomes would follow: the display is
  stopped, the error is printed and logged, the pool is terminated, the results file
  is the one written so far, and the script then ends with exit status 0.
\<close>

theorem C2_fatal_error_stops_scan:
  assumes "scan_prefix co cfg outs (initial_state co cfg cidr_list) = Continue s"
  shows "scan_loop co cfg (outs @ Raise StartProxyServiceError # rest)
           (initial_state co cfg cidr_list) =
         Break (s\<lparr>progress := stop (progress s),
                  console := console s @ [ConsoleLogError StartProxyServiceError],
                  pool_terminated := True,
                  log_file := log_file s @ [StartProxyServiceError]\<rparr>) \<and>
         \<not> live (progress (fst (run_scan co cfg cidr_list
                 (outs @ Raise StartProxyServiceError # rest)))) \<and>
         pool_terminated (fst (run_scan co cfg cidr_list
                 (outs @ Raise StartProxyServiceError # rest))) \<and>
         outfile (fst (run_scan co cfg cidr_list
                 (outs @ Raise StartProxyServiceError # rest))) = outfile s \<and>
         snd (run_scan co cfg cidr_list (outs @ Raise StartProxyServiceError # rest)) = 0"
proof -
  have "scan_loop co cfg (outs @ Raise StartProxyServiceError # rest)
           (initial_state co cfg cidr_list) =
         Break (s\<lparr>progress := stop (progress s),
                  console := console s @ [ConsoleLogError StartProxyServiceError],
                  pool_terminated := True,
                  log_file := log_file s @ [StartProxyServiceError]\<rparr>)"
    by (simp add: scan_loop_append assms iteration_def handle_def
          on_start_proxy_service_error_def)
  then show ?thesis
    by (simp add: run_scan_def leave_with_blocks_def stop_def)
qed

theorem C2_witness:
  "outfile (fst (run_scan two_ips no_upload one_block
      ([Yield probe_ok] @ Raise StartProxyServiceError # [Yield probe_ok]))) =
     [map Str (titles 2),
      [Str ''1.1.1.0'', Num 5, Num (- 1), Num 40, Num (- 1), Num 20, Num (- 1),
       Num 4, Num 6, Num (- 1), Num (- 1), Num 30, Num 50, Num (- 1), Num (- 1)]] \<and>
   snd (run_scan two_ips no_upload one_block
      ([Yield probe_ok] @ Raise StartProxyServiceError # [Yield probe_ok])) = 0"
proof -
  let ?init = "initial_state two_ips no_upload one_block"
  have "\<exists>s. scan_prefix two_ips no_upload [Yield probe_ok] ?init = Continue s \<and>
     outfile s = [map Str (titles 2),
      [Str ''1.1.1.0'', Num 5, Num (- 1), Num 40, Num (- 1), Num 20, Num (- 1),
       Num 4, Num 6, Num (- 1), Num (- 1), Num 30, Num 50, Num (- 1), Num (- 1)]]"
    by (simp add: model_defs example_defs one_block_def)
  then obtain s where h: "scan_prefix two_ips no_upload [Yield probe_ok] ?init = Continue s"
    and o: "outfile s = [map Str (titles 2),
      [Str ''1.1.1.0'', Num 5, Num (- 1), Num 40, Num (- 1), Num 20, Num (- 1),
       Num 4, Num 6, Num (- 1), Num (- 1), Num 30, Num 50, Num (- 1), Num (- 1)]]"
    by blast
  from C2_fatal_error_stops_scan [OF h, of "[Yield probe_ok]"] o show ?thesis by simp
qed

text \<open>
  Claim C5. After the fatal start error the tasks of the display are neither stopped nor
  removed: the overall task and the task of the block are still registered, whereas
  after an interrupt and after normal completion no task is left.
\<close>

theorem C5_abort_keeps_trackers:
  "task_ids (progress (fst (run_scan two_ips no_upload one_block
      [Yield probe_ok, Raise StartProxyServiceError]))) = [0, 1] \<and>
   task_ids (progress (fst (run_scan two_ips no_upload one_block
      [Yield probe_ok, KeyboardInterrupt]))) = [] \<and>
   task_ids (progress (fst (run_scan two_ips no_upload one_block
      [Yield probe_ok]))) = []"
  by (simp add: model_defs example_defs one_block_def)




lemma length_titles: "length (titles n) = 7 + 4 * n"
  by (simp add: titles_def)

lemma flow_state_iteration_Yield:
  "flow_state (iteration co cfg (Yield res) s) =
     (case process_result co cfg res s of
        Inl (e, s1) \<Rightarrow> s1\<lparr>console := console s1
                         @ [ProgressLog ''[red]Unknown error![/red]'', PrintException e],
                       log_file := log_file s1 @ [e]\<rparr>
      | Inr s1 \<Rightarrow> s1)"
  by (simp add: iteration_Yield on_exception_def split: sum.splits)

text \<open>
  Claim C1, as stated, fails: with upload testing disabled, a successful result whose
  upload sequences are empty is written as a line of 11 fields under a title row of 15;
  the raw upload columns are left out.
\<close>

theorem C1_counterexample:
  "\<not> do_upload_test no_upload \<and> is_ok probe_empty_upload \<and>
   outfile (flow_state (iteration two_ips no_upload (Yield probe_empty_upload)
      (initial_state two_ips no_upload one_block))) =
     [map Str (titles 2),
      [Str ''1.1.1.1'', Num 5, Num (- 1), Num 40, Num (- 1), Num 20, Num (- 1),
       Num 4, Num 6, Num 30, Num 50]] \<and>
   length (titles 2) = 15"
  by (simp add: model_defs example_defs one_block_def length_titles)

text \<open>
  Claim C1, amended. For every successful result that is written while upload testing is
  disabled, one line is appended; its three upload summary fields (mean upload speed,
  mean upload latency, upload jitter) are \<open>- 1\<close>, and its raw columns are the four
  sequences of the result, copied in the order of the title row: download speed, upload
  speed, download latency, upload latency. So the line has as many fields as the title
  row exactly when the four sequences hold \<open>4 * n_tries\<close> samples together, and its raw
  upload columns hold \<open>- 1\<close> exactly when the upload sequences of the result do.
\<close>

theorem C1_upload_columns:
  assumes "\<not> do_upload_test cfg" and "is_ok res"
    and "outfile (flow_state (iteration co cfg (Yield res) s)) \<noteq> outfile s"
  shows "\<exists>sm ds us dl ul.
    summarise co cfg res = Inr sm \<and>
    samples res ''download'' ''speed'' = Inr ds \<and> samples res ''upload'' ''speed'' = Inr us \<and>
    samples res ''download'' ''latency'' = Inr dl \<and> samples res ''upload'' ''latency'' = Inr ul \<and>
    outfile (flow_state (iteration co cfg (Yield res) s)) =
      outfile s @ [[Str (ip res), Num (mean_down_speed sm), Num (- 1),
                    Num (mean_down_latency sm), Num (- 1),
                    Num (down_mean_jitter sm), Num (- 1)]
                   @ map Num ds @ map Num us @ map Num dl @ map Num ul] \<and>
    (length (last (outfile (flow_state (iteration co cfg (Yield res) s)))) =
       length (titles (n_tries cfg))
     \<longleftrightarrow> length ds + length us + length dl + length ul = 4 * n_tries cfg)"
proof (cases "process_result co cfg res s")
  case (Inl x)
  obtain e s1 where x: "x = (e, s1)" by (cases x)
  from process_result_Inl(3) [of co cfg res s e s1] Inl x have "outfile s1 = outfile s" by simp
  with assms(3) show ?thesis by (simp add: flow_state_iteration_Yield Inl x)
next
  case (Inr s1)
  from process_result_Inr(6) [OF Inr assms(2)] obtain sm parts where
    sm: "summarise co cfg res = Inr sm" and parts: "res_parts res sm = Inr parts"
    and out: "outfile s1 = outfile s @ [parts]" by blast
  from res_parts_Inr [OF parts] obtain ds us dl ul where
    smp: "samples res ''download'' ''speed'' = Inr ds" "samples res ''upload'' ''speed'' = Inr us"
      "samples res ''download'' ''latency'' = Inr dl" "samples res ''upload'' ''latency'' = Inr ul"
    and p: "parts = [Str (ip res), Num (mean_down_speed sm), Num (mean_up_speed sm),
                    Num (mean_down_latency sm), Num (mean_up_latency sm),
                    Num (down_mean_jitter sm), Num (up_mean_jitter sm)]
                   @ map Num ds @ map Num us @ map Num dl @ map Num ul" by blast
  note up = summarise_no_upload [OF sm assms(1)]
  have o: "outfile (flow_state (iteration co cfg (Yield res) s)) = outfile s @ [parts]"
    by (simp add: flow_state_iteration_Yield Inr out)
  have len: "length parts = 7 + (length ds + length us + length dl + length ul)"
    by (simp add: p)
  show ?thesis
    apply (rule exI [of _ sm], rule exI [of _ ds], rule exI [of _ us],
           rule exI [of _ dl], rule exI [of _ ul])
    apply (intro conjI)
          apply (rule sm)
         apply (rule smp(1))
        apply (rule smp(2))
       apply (rule smp(3))
      apply (rule smp(4))
     apply (simp add: o p up)
    apply (simp add: o len length_titles)
    done
qed

theorem C1_witness:
  "outfile (flow_state (iteration two_ips no_upload (Yield probe_ok)
      (initial_state two_ips no_upload one_block))) =
     [map Str (titles 2),
      [Str ''1.1.1.0'', Num 5, Num (- 1), Num 40, Num (- 1), Num 20, Num (- 1),
       Num 4, Num 6, Num (- 1), Num (- 1), Num 30, Num 50, Num (- 1), Num (- 1)]]"
proof -
  let ?s = "initial_state two_ips no_upload one_block"
  have 1: "\<not> do_upload_test no_upload" "is_ok probe_ok" by (simp_all add: example_defs)
  have 2: "outfile (flow_state (iteration two_ips no_upload (Yield probe_ok) ?s)) \<noteq> outfile ?s"
    by (simp add: model_defs example_defs one_block_def)
  have 3: "summarise two_ips no_upload probe_ok =
             Inr \<lparr>down_mean_jitter = 20, up_mean_jitter = - 1, mean_down_speed = 5,
                  mean_up_speed = - 1, mean_down_latency = 40, mean_up_latency = - 1\<rparr>"
    "samples probe_ok ''download'' ''speed'' = Inr [4, 6]"
    "samples probe_ok ''upload'' ''speed'' = Inr [- 1, - 1]"
    "samples probe_ok ''download'' ''latency'' = Inr [30, 50]"
    "samples probe_ok ''upload'' ''latency'' = Inr [- 1, - 1]"
    "outfile ?s = [map Str (titles 2)]" "ip probe_ok = ''1.1.1.0''"
    by (simp_all add: model_defs example_defs one_block_def)
  from C1_upload_columns [OF 1 2] show ?thesis
    unfolding 3 by auto
qed

text \<open>
  Claim C8, as stated, fails: a result whose success flag is true is not written when
  its processing raises before the write. With upload testing disabled, a successful
  result without the upload entry raises KeyError at line 211 and the results file keeps
  the title row only.
\<close>

theorem C8_counterexample:
  "is_ok probe_without_upload \<and>
   outfile (flow_state (iteration two_ips no_upload (Yield probe_without_upload)
      (initial_state two_ips no_upload one_block))) = [map Str (titles 2)] \<and>
   outfile (initial_state two_ips no_upload one_block) = [map Str (titles 2)]"
  by (simp add: model_defs example_defs one_block_def)

text \<open>
  Claim C8, amended. For every consumed result exactly one line is appended when the
  success flag is true and the processing of the result raises no exception; otherwise
  nothing is appended. A result whose flag is false is never written: its message is
  printed, or the exception its processing raised is.
\<close>

theorem C8_lines_written:
  "(is_ok res \<and> (\<exists>s1. process_result co cfg res s = Inr s1) \<longrightarrow>
      (\<exists>parts. outfile (flow_state (iteration co cfg (Yield res) s)) = outfile s @ [parts])) \<and>
   (\<not> (is_ok res \<and> (\<exists>s1. process_result co cfg res s = Inr s1)) \<longrightarrow>
      outfile (flow_state (iteration co cfg (Yield res) s)) = outfile s) \<and>
   (\<not> is_ok res \<longrightarrow>
      Rprint (message res) \<in> set (console (flow_state (iteration co cfg (Yield res) s))) \<or>
      (\<exists>e. PrintException e \<in> set (console (flow_state (iteration co cfg (Yield res) s)))))"
proof (cases "process_result co cfg res s")
  case (Inl x)
  obtain e s1 where x: "x = (e, s1)" by (cases x)
  from process_result_Inl(3) [of co cfg res s e s1] Inl x have "outfile s1 = outfile s" by simp
  then show ?thesis by (auto simp: flow_state_iteration_Yield Inl x)
next
  case (Inr s1)
  have f: "flow_state (iteration co cfg (Yield res) s) = s1"
    by (simp add: flow_state_iteration_Yield Inr)
  show ?thesis
  proof (cases "is_ok res")
    case True
    from process_result_Inr(6) [OF Inr True] show ?thesis using True Inr by (auto simp: f)
  next
    case False
    from Inr obtain sa sb where a: "update_progress co res s = Inr sa"
      and b: "record_result co cfg res sa = Inr sb" and c: "count_scanned co res sb = Inr s1"
      by (cases rule: process_result_cases [of co res s cfg]) auto
    from record_result_Inr(3) [OF b] have "Rprint (message res) \<in> set (console sb)" .
    moreover have "console s1 = console sb" using count_scanned_frame(2) [of co res sb] c by simp
    ultimately show ?thesis using process_result_Inr(7) [OF Inr False] False by (simp add: f)
  qed
qed

theorem C8_witness:
  "length (outfile (flow_state (iteration two_ips no_upload (Yield probe_ok)
      (initial_state two_ips no_upload one_block)))) = 2 \<and>
   length (outfile (flow_state (iteration two_ips no_upload (Yield (probe_ok\<lparr>is_ok := False\<rparr>))
      (initial_state two_ips no_upload one_block)))) = 1"
proof -
  let ?s = "initial_state two_ips no_upload one_block"
  have 1: "is_ok probe_ok \<and> (\<exists>s1. process_result two_ips no_upload probe_ok ?s = Inr s1)"
    by (simp add: model_defs example_defs one_block_def)
  have 2: "\<not> (is_ok (probe_ok\<lparr>is_ok := False\<rparr>) \<and>
     (\<exists>s1. process_result two_ips no_upload (probe_ok\<lparr>is_ok := False\<rparr>) ?s = Inr s1))"
    by simp
  have 3: "length (outfile ?s) = 1" by (simp add: initial_state_fields)
  from C8_lines_written [of probe_ok two_ips no_upload ?s] 1
  have a: "\<exists>parts. outfile (flow_state (iteration two_ips no_upload (Yield probe_ok) ?s)) =
     outfile ?s @ [parts]" by blast
  from C8_lines_written [of "probe_ok\<lparr>is_ok := False\<rparr>" two_ips no_upload ?s] 2
  have b: "outfile (flow_state (iteration two_ips no_upload
     (Yield (probe_ok\<lparr>is_ok := False\<rparr>)) ?s)) = outfile ?s" by blast
  from a b 3 show ?thesis by auto
qed

lemma scan_prefix_take:
  assumes "scan_prefix co cfg outs s0 = Continue s"
  shows "\<exists>sj. scan_prefix co cfg (take j outs) s0 = Continue sj \<and>
              scan_prefix co cfg (drop j outs) sj = Continue s"
proof -
  have "scan_prefix co cfg (take j outs @ drop j outs) s0 = Continue s" using assms by simp
  then show ?thesis
    unfolding scan_prefix_append by (auto split: flow.splits)
qed

text \<open>
  Claim C10. In every state the running scan reaches, the overall counter is the number
  of results the iterator has yielded so far, and the sum of the counters of the blocks
  is at most that number. The next result advances the overall counter by one whether
  or not its processing raises; when it raises, the counters of the blocks stay as they
  were, so that the overall counter is then above their sum.
\<close>

theorem C10_overall_counter:
  assumes "scan_prefix co cfg outs (initial_state co cfg cidr_list) = Continue s"
  shows "overall s = Some (yields outs) \<and> scanned_sum s \<le> yields outs \<and>
    (\<exists>s'. iteration co cfg (Yield res) s = Continue s' \<and>
       overall s' = Some (yields outs + 1) \<and>
       ((\<exists>e s1. process_result co cfg res s = Inl (e, s1)) \<longrightarrow>
          cidr_scanned_ips s' = cidr_scanned_ips s \<and> scanned_sum s' < yields outs + 1))"
proof -
  let ?init = "initial_state co cfg cidr_list"
  have w0: "wf_state ?init" by (rule initial_wf)
  have w: "wf_state s" using assms w0 by (rule wf_scan_prefix)
  from counters_scan_prefix [OF assms w0]
  have ov: "overall s = Some (yields outs)" and sm: "scanned_sum s \<le> yields outs"
    by (simp_all add: initial_state_fields initial_scanned_sum)
  have po: "overall (state_of (process_result co cfg res s)) = Some (yields outs + 1)"
    using process_result_overall [OF w, of co cfg res] ov by simp
  show ?thesis
  proof (cases "process_result co cfg res s")
    case (Inl x)
    obtain e s1 where x: "x = (e, s1)" by (cases x)
    let ?s' = "s1\<lparr>console := console s1
                     @ [ProgressLog ''[red]Unknown error![/red]'', PrintException e],
                   log_file := log_file s1 @ [e]\<rparr>"
    have it: "iteration co cfg (Yield res) s = Continue ?s'"
      using Inl x by (simp add: iteration_Yield_raised on_exception_def)
    have 1: "overall ?s' = Some (yields outs + 1)" using po Inl x by (simp add: overall_def)
    have 2: "cidr_scanned_ips ?s' = cidr_scanned_ips s"
      using process_result_Inl(2) [of co cfg res s e s1] Inl x by simp
    then have 3: "scanned_sum ?s' < yields outs + 1" using sm by (simp add: scanned_sum_def)
    show ?thesis using ov sm it 1 2 3 by blast
  next
    case (Inr s1)
    have it: "iteration co cfg (Yield res) s = Continue s1" using Inr by (rule iteration_Yield_done)
    have 1: "overall s1 = Some (yields outs + 1)" using po Inr by simp
    show ?thesis using ov sm it 1 Inr by auto
  qed
qed

theorem C10_witness:
  "overall (flow_state (iteration two_ips no_upload (Yield probe_without_upload)
      (initial_state two_ips no_upload one_block))) = Some 1 \<and>
   scanned_sum (flow_state (iteration two_ips no_upload (Yield probe_without_upload)
      (initial_state two_ips no_upload one_block))) = 0"
proof -
  let ?init = "initial_state two_ips no_upload one_block"
  have h: "scan_prefix two_ips no_upload [] ?init = Continue ?init" by simp
  have r: "\<exists>e s1. process_result two_ips no_upload probe_without_upload ?init = Inl (e, s1)"
    by (simp add: model_defs example_defs one_block_def)
  from C10_overall_counter [OF h, of probe_without_upload] r
  obtain s' where "iteration two_ips no_upload (Yield probe_without_upload) ?init = Continue s'"
    "overall s' = Some (yields [] + 1)" "scanned_sum s' < yields [] + 1"
    by blast
  then show ?thesis by (simp add: yields_def)
qed

text \<open>
  Claim C7, as stated, fails: a scan of two candidates without fatal error, in which the
  worker of the second candidate raises an unexpected exception, reaches the end of the
  iterator with the counters of the blocks summing to 1 and the overall counter at 1.
\<close>

theorem C7_counterexample:
  "length [Yield probe_ok, Raise (OtherException ''timed out'')] = 2 \<and>
   console (fst (run_scan two_ips no_upload one_block
      [Yield probe_ok, Raise (OtherException ''timed out'')])) =
     [Rprint ''ok'', ProgressLog ''[red]Unknown error![/red]'',
      PrintException (OtherException ''timed out''), ProgressLog ''Finished scanning ips.''] \<and>
   log_file (flow_state (scan_prefix two_ips no_upload
      [Yield probe_ok, Raise (OtherException ''timed out'')]
      (initial_state two_ips no_upload one_block))) = [OtherException ''timed out''] \<and>
   scanned_sum (flow_state (scan_prefix two_ips no_upload
      [Yield probe_ok, Raise (OtherException ''timed out'')]
      (initial_state two_ips no_upload one_block))) = 1 \<and>
   overall (flow_state (scan_prefix two_ips no_upload
      [Yield probe_ok, Raise (OtherException ''timed out'')]
      (initial_state two_ips no_upload one_block))) = Some 1"
  by (simp add: model_defs example_defs one_block_def scanned_sum_def overall_def)

text \<open>
  Claim C7, amended. For every scan of \<open>k\<close> candidates that reaches the end of the
  iterator without any exception having reached an except clause (the log is empty:
  every candidate yielded a result and no processing raised), the counters of the blocks
  sum to \<open>k\<close> and the overall counter is \<open>k\<close> when StopIteration arrives; after the first
  \<open>j < k\<close> outcomes the overall counter is \<open>j\<close>, so it is \<open>k\<close> at that point only; the
  scan then completes and removes every task.
\<close>

theorem C7_counters:
  assumes "scan_prefix co cfg outs (initial_state co cfg cidr_list) = Continue s"
    and "log_file s = []"
  shows "scanned_sum s = length outs \<and> overall s = Some (length outs) \<and>
    (\<forall>j < length outs.
       overall (flow_state (scan_prefix co cfg (take j outs) (initial_state co cfg cidr_list)))
         = Some j) \<and>
    scan_loop co cfg outs (initial_state co cfg cidr_list) =
      Break (s\<lparr>progress := stop ((progress s)\<lparr>tasks := []\<rparr>),
               console := console s @ [ProgressLog ''Finished scanning ips.'']\<rparr>)"
proof -
  let ?init = "initial_state co cfg cidr_list"
  have w0: "wf_state ?init" by (rule initial_wf)
  have all: "\<And>os t. scan_prefix co cfg os ?init = Continue t \<Longrightarrow> log_file t = [] \<Longrightarrow>
      scanned_sum t = length os \<and> overall t = Some (length os)"
  proof -
    fix os t
    assume a: "scan_prefix co cfg os ?init = Continue t" and l: "log_file t = []"
    from counters_scan_prefix [OF a w0] l
    have 1: "overall t = Some (yields os)" "scanned_sum t = length os"
      "scanned_sum t \<le> yields os"
      by (simp_all add: initial_state_fields initial_scanned_sum)
    have "yields os \<le> length os" by (simp add: yields_def)
    with 1 show "scanned_sum t = length os \<and> overall t = Some (length os)" by simp
  qed
  have pre: "\<forall>j < length outs. overall (flow_state (scan_prefix co cfg (take j outs) ?init)) = Some j"
  proof (intro allI impI)
    fix j
    assume j: "j < length outs"
    from scan_prefix_take [OF assms(1), of j] obtain sj where
      sj: "scan_prefix co cfg (take j outs) ?init = Continue sj"
        "scan_prefix co cfg (drop j outs) sj = Continue s" by blast
    have "wf_state sj" using sj(1) w0 by (rule wf_scan_prefix)
    from counters_scan_prefix [OF sj(2) this] assms(2) have "log_file sj = []" by simp
    from all [OF sj(1) this] j show "overall (flow_state (scan_prefix co cfg (take j outs) ?init)) = Some j"
      by (simp add: sj(1))
  qed
  have w: "wf_state s" using assms(1) w0 by (rule wf_scan_prefix)
  have "scan_loop co cfg (outs @ []) ?init =
      Break (s\<lparr>progress := stop ((progress s)\<lparr>tasks := []\<rparr>),
               console := console s @ [ProgressLog ''Finished scanning ips.'']\<rparr>)"
    unfolding scan_loop_append
    by (simp add: assms(1) iteration_def on_stop_iteration_wf [OF w])
  then show ?thesis using all [OF assms] pre by simp
qed

theorem C7_witness:
  "scanned_sum (flow_state (scan_prefix two_ips no_upload [Yield probe_ok, Yield probe_ok]
      (initial_state two_ips no_upload one_block))) = 2 \<and>
   overall (flow_state (scan_prefix two_ips no_upload [Yield probe_ok, Yield probe_ok]
      (initial_state two_ips no_upload one_block))) = Some 2 \<and>
   tasks (progress (flow_state (scan_loop two_ips no_upload [Yield probe_ok, Yield probe_ok]
      (initial_state two_ips no_upload one_block)))) = []"
proof -
  let ?init = "initial_state two_ips no_upload one_block"
  have "\<exists>s. scan_prefix two_ips no_upload [Yield probe_ok, Yield probe_ok] ?init = Continue s \<and>
     log_file s = []"
    by (simp add: model_defs example_defs one_block_def)
  then obtain s where h: "scan_prefix two_ips no_upload [Yield probe_ok, Yield probe_ok] ?init = Continue s"
    and l: "log_file s = []" by blast
  from C7_counters [OF h l] show ?thesis
    by (simp add: h stop_def del: scan_loop.simps scan_prefix.simps)
qed

text \<open>
  Claim C4 fails in runs where the processing of a result raises, and the code is at
  fault. The block \<^verbatim>\<open>1.1.1.0/31\<close> has two candidates and upload testing is disabled. The
  first result is successful but carries no upload entry: line 184 has created the
  entry of the block (task 1) when line 211 raises KeyError, so line 219 is skipped and
  the counter of the block stays 0. Line 181 tests that counter, not whether the block
  has an entry, so the second result creates a second entry (task 2) and line 184
  overwrites the id stored for the block. Both entries of the block are now in the
  display at once, task 1 is out of reach of line 221, and when the iterator is exhausted
  the counter of the block is 1, below its total 2, so no entry of the block has been
  removed.
\<close>

theorem C4_entry_created_twice:
  "block_entries two_ips (flow_state (scan_prefix two_ips no_upload
      [Yield probe_without_upload]
      (initial_state two_ips no_upload one_block))) ''1.1.1.0/31'' = [1] \<and>
   scanned (flow_state (scan_prefix two_ips no_upload
      [Yield probe_without_upload]
      (initial_state two_ips no_upload one_block))) ''1.1.1.0/31'' = Some 0 \<and>
   log_file (flow_state (scan_prefix two_ips no_upload
      [Yield probe_without_upload]
      (initial_state two_ips no_upload one_block))) = [KeyError] \<and>
   block_entries two_ips (flow_state (scan_prefix two_ips no_upload
      [Yield probe_without_upload, Yield probe_ok]
      (initial_state two_ips no_upload one_block))) ''1.1.1.0/31'' = [1, 2] \<and>
   cidr_prog_tasks (flow_state (scan_prefix two_ips no_upload
      [Yield probe_without_upload, Yield probe_ok]
      (initial_state two_ips no_upload one_block))) = [(''1.1.1.0/31'', 2)] \<and>
   scanned (flow_state (scan_prefix two_ips no_upload
      [Yield probe_without_upload, Yield probe_ok]
      (initial_state two_ips no_upload one_block))) ''1.1.1.0/31'' = Some 1 \<and>
   get_num_ips_in_cidr two_ips ''1.1.1.0/31'' = 2"
  by (simp add: model_defs example_defs one_block_def scanned_def block_entries_def)

end
